theory Spec2Isabelle
  imports Complex_Main "HOL-Library.Multiset"
begin

section \<open>The YOLO notebook: detect\_objects, show\_objects and the test-image loop\<close>

text \<open>
  The notebook \<^verbatim>\<open>Mod04/01-Yolo/YOLO (PyTorch).ipynb\<close> defines two functions and a loop:
  \<^verbatim>\<open>detect_objects(model, img)\<close> letterboxes a PIL image, runs the network and the
  non-max suppression; \<^verbatim>\<open>show_objects(img, detections)\<close> rescales the boxes to image
  pixels and draws them; the last cell calls both for every file of the test directory.

  Numbers. Python's \<^verbatim>\<open>int\<close> is \<^typ>\<open>int\<close> (image sizes, which are never negative, are
  \<^typ>\<open>nat\<close>). A Python \<^verbatim>\<open>float\<close> is an IEEE double: its value is a rational (\<^typ>\<open>rat\<close>),
  and every arithmetic operation that the notebook does on Python floats (the ratio and the
  scaled sizes of detect\_objects, \<open>pad_x\<close>, \<open>pad_y\<close>, \<open>unpad_w\<close> and \<open>unpad_h\<close> of
  show\_objects) is the exact operation followed by the rounding to the nearest double,
  \<open>binary64\<close> below. These are the values that the notebook passes to \<^verbatim>\<open>round\<close>, \<^verbatim>\<open>int\<close> and
  \<^verbatim>\<open>//\<close>, where a rounding error of one unit in the last place can change the integer.
  The arithmetic on the entries of a torch tensor (the four operations that rescale a box
  in the drawing loop, on single-precision values) is idealised as exact: its results are
  never floored or rounded to an integer by the notebook, and the theorems about them hold
  up to that single-precision rounding.

  Images. A decoded PIL image has a positive width and a positive height; the theorems
  about the rescaling state that as a hypothesis. (With a zero height the tensor division
  by \<^verbatim>\<open>unpad_h = 0\<close> yields an infinity in torch, which \<^typ>\<open>rat\<close> does not have.)
\<close>

subsection \<open>Python's numeric built-ins\<close>

datatype error = ZeroDivisionError | ValueError | TypeError | IndexError

text \<open>\<^verbatim>\<open>round(x)\<close> with one argument: the nearest integer, a tie going to the even one.\<close>

definition py_round :: "rat \<Rightarrow> int" where
  "py_round x =
     (let f = \<lfloor>x\<rfloor>; r = x - of_int f
      in if r < 1 / 2 then f
         else if 1 / 2 < r then f + 1
         else if even f then f else f + 1)"

text \<open>
  The rounding of a rational to the nearest IEEE double, a tie going to the even
  significand. A positive number is scaled by powers of two into the range from \<open>2^52\<close>
  (4503599627370496) up to \<open>2^53\<close> (9007199254740992), rounded to an integer there, and
  scaled back. Overflow and subnormal numbers are not modelled: the doubles of the notebook
  are quotients and products of image sizes and lie far inside the normal range.
\<close>

function binary64_pos :: "rat \<Rightarrow> rat" where
  "binary64_pos x =
     (if x \<le> 0 then 0
      else if 9007199254740992 \<le> x then 2 * binary64_pos (x / 2)
      else if x < 4503599627370496 then binary64_pos (2 * x) / 2
      else of_int (py_round x))"
  by pat_completeness auto
termination
proof (relation "measure (\<lambda>x. if 9007199254740992 \<le> x then nat \<lfloor>x\<rfloor>
                              else if 0 < x \<and> x < 4503599627370496
                                   then nat \<lfloor>4503599627370496 / x\<rfloor> else 0)")
  show "wf (measure (\<lambda>x::rat. if 9007199254740992 \<le> x then nat \<lfloor>x\<rfloor>
                              else if 0 < x \<and> x < 4503599627370496
                                   then nat \<lfloor>4503599627370496 / x\<rfloor> else 0))"
    by simp
next
  fix x :: rat
  assume "\<not> x \<le> 0" and big: "9007199254740992 \<le> x"
  have "x / 2 \<le> x - 1" using big by simp
  then have "\<lfloor>x / 2\<rfloor> \<le> \<lfloor>x - 1\<rfloor>" by (rule floor_mono)
  then have 1: "\<lfloor>x / 2\<rfloor> < \<lfloor>x\<rfloor>" by simp
  have 2: "0 < \<lfloor>x\<rfloor>" using big by (simp add: floor_less_iff less_floor_iff)
  have 3: "\<not> x / 2 < 4503599627370496" using big by simp
  show "(x / 2, x) \<in> measure (\<lambda>x. if 9007199254740992 \<le> x then nat \<lfloor>x\<rfloor>
                              else if 0 < x \<and> x < 4503599627370496
                                   then nat \<lfloor>4503599627370496 / x\<rfloor> else 0)"
    using big 1 2 3 by (auto simp del: floor_divide_eq_div_numeral)
next
  fix x :: rat
  assume pos: "\<not> x \<le> 0" and "\<not> 9007199254740992 \<le> x" and small: "x < 4503599627370496"
  define y where "y = 4503599627370496 / x"
  from pos small have y: "1 < y" unfolding y_def by simp
  then have fy: "0 < \<lfloor>y\<rfloor>" by (simp add: less_floor_iff)
  have half: "4503599627370496 / (2 * x) = y / 2" unfolding y_def by simp
  have lt: "\<lfloor>y / 2\<rfloor> < \<lfloor>y\<rfloor>"
  proof (cases "2 \<le> y")
    case True
    then have "y / 2 \<le> y - 1" by simp
    then have "\<lfloor>y / 2\<rfloor> \<le> \<lfloor>y - 1\<rfloor>" by (rule floor_mono)
    then show ?thesis by simp
  next
    case False
    then have "y / 2 < of_int 1" by simp
    then have "\<lfloor>y / 2\<rfloor> < 1" by (simp only: floor_less_iff)
    with fy show ?thesis by linarith
  qed
  have nb: "\<not> 9007199254740992 \<le> 2 * x" using small by simp
  have mx: "(if 9007199254740992 \<le> x then nat \<lfloor>x\<rfloor>
             else if 0 < x \<and> x < 4503599627370496
                  then nat \<lfloor>4503599627370496 / x\<rfloor> else 0) = nat \<lfloor>y\<rfloor>"
    using pos small unfolding y_def by simp
  have m2: "(if 9007199254740992 \<le> 2 * x then nat \<lfloor>2 * x\<rfloor>
             else if 0 < 2 * x \<and> 2 * x < 4503599627370496
                  then nat \<lfloor>4503599627370496 / (2 * x)\<rfloor> else 0) \<le> nat \<lfloor>y / 2\<rfloor>"
    using nb unfolding half by simp
  from lt fy have "nat \<lfloor>y / 2\<rfloor> < nat \<lfloor>y\<rfloor>" by simp
  with m2 have "(if 9007199254740992 \<le> 2 * x then nat \<lfloor>2 * x\<rfloor>
             else if 0 < 2 * x \<and> 2 * x < 4503599627370496
                  then nat \<lfloor>4503599627370496 / (2 * x)\<rfloor> else 0) < nat \<lfloor>y\<rfloor>"
    by (rule le_less_trans)
  then show "(2 * x, x) \<in> measure (\<lambda>x. if 9007199254740992 \<le> x then nat \<lfloor>x\<rfloor>
                              else if 0 < x \<and> x < 4503599627370496
                                   then nat \<lfloor>4503599627370496 / x\<rfloor> else 0)"
    unfolding in_measure by (simp only: mx)
qed

declare binary64_pos.simps [simp del]

definition binary64 :: "rat \<Rightarrow> rat" where
  "binary64 x = (if x < 0 then - binary64_pos (- x) else binary64_pos x)"

text \<open>\<^verbatim>\<open>int(x)\<close> of a float: truncation towards zero.\<close>

definition py_int :: "rat \<Rightarrow> int" where
  "py_int x = (if 0 \<le> x then \<lfloor>x\<rfloor> else \<lceil>x\<rceil>)"

text \<open>\<^verbatim>\<open>a // b\<close> on floats: the floor of the quotient, as a float. The notebook only
  divides by the literal 2, where the quotient and its floor are doubles without rounding.\<close>

definition floordiv :: "rat \<Rightarrow> rat \<Rightarrow> rat" where
  "floordiv a b = of_int \<lfloor>a / b\<rfloor>"

text \<open>\<^verbatim>\<open>max(t)\<close> of a tuple of sizes.\<close>

definition max_list :: "nat list \<Rightarrow> nat" where
  "max_list xs = fold max xs 0"

subsection \<open>Images, the model object, detections\<close>

text \<open>A PIL image: \<^verbatim>\<open>img.size = (width, height)\<close>, the number of bands of its mode
  (1 for \<^verbatim>\<open>L\<close>, 3 for \<^verbatim>\<open>RGB\<close>, 4 for \<^verbatim>\<open>RGBA\<close>) and its pixel data.\<close>

record 'px image =
  width :: nat
  height :: nat
  bands :: nat
  pixels :: 'px

text \<open>\<^verbatim>\<open>img_size = 416\<close>, the global of the set-up cell.\<close>

definition img_size :: nat where
  "img_size = 416"

text \<open>The state of an \<^verbatim>\<open>nn.Module\<close> that the notebook touches: the weight tensors, the
  \<^verbatim>\<open>training\<close> flag (True after construction, cleared by \<^verbatim>\<open>model.eval()\<close>) and the device
  (moved to the GPU by \<^verbatim>\<open>model.cuda()\<close>).\<close>

record 'w model =
  weights :: 'w
  training :: bool
  on_cuda :: bool

definition model_cuda :: "'w model \<Rightarrow> 'w model" where
  "model_cuda m = m\<lparr>on_cuda := True\<rparr>"

definition model_eval :: "'w model \<Rightarrow> 'w model" where
  "model_eval m = m\<lparr>training := False\<rparr>"

text \<open>One row of the detection tensor, in the order the drawing loop unpacks it. The class
  entry is stored as a float by the suppression routine but is always a class index, so
  \<^verbatim>\<open>int(cls_pred)\<close> is the identity on it.\<close>

record detection =
  x1 :: rat
  y1 :: rat
  x2 :: rat
  y2 :: rat
  conf :: rat
  cls_conf :: rat
  cls_pred :: nat

subsection \<open>detect\_objects\<close>

text \<open>
  \<^verbatim>\<open>
  ratio = min(img_size/img.size[0], img_size/img.size[1])
  imw = round(img.size[0] * ratio)
  imh = round(img.size[1] * ratio)
  \<close>
  The division of two Python ints raises ZeroDivisionError on a zero size; the quotients
  and the products are doubles.
\<close>

definition scaled_size :: "'px image \<Rightarrow> error + int \<times> int" where
  "scaled_size img =
     (if width img = 0 \<or> height img = 0 then Inl ZeroDivisionError
      else
        let ratio = min (binary64 (of_nat img_size / of_nat (width img)))
                        (binary64 (of_nat img_size / of_nat (height img)));
            imw = py_round (binary64 (of_nat (width img) * ratio));
            imh = py_round (binary64 (of_nat (height img) * ratio))
        in Inr (imw, imh))"

text \<open>The four amounts given to \<^verbatim>\<open>transforms.Pad\<close>: left, top, right, bottom. (Half of
  the difference of two sizes is a double without rounding.)\<close>

definition pad_amounts :: "int \<Rightarrow> int \<Rightarrow> int \<times> int \<times> int \<times> int" where
  "pad_amounts imw imh =
     (max (py_int (of_int (imh - imw) / 2)) 0,
      max (py_int (of_int (imw - imh) / 2)) 0,
      max (py_int (of_int (imh - imw) / 2)) 0,
      max (py_int (of_int (imw - imh) / 2)) 0)"

text \<open>The network input, as far as the notebook determines it: its width and height, the
  rectangle that holds the resized image, the fill colour of the rest, and the image the
  content was resized from.\<close>

record 'px tensor =
  t_width :: int
  t_height :: int
  content_left :: int
  content_top :: int
  content_width :: int
  content_height :: int
  fill :: "nat \<times> nat \<times> nat"
  source :: "'px image"

text \<open>
  \<^verbatim>\<open>Compose([Resize((imh, imw)), Pad((l, t, r, b), (128,128,128)), ToTensor()])\<close> applied
  to the image. \<^verbatim>\<open>Resize\<close> gives an image of \<^verbatim>\<open>imw\<close> by \<^verbatim>\<open>imh\<close> pixels and rejects a size
  that is not positive; \<^verbatim>\<open>Pad\<close> adds \<^verbatim>\<open>l + r\<close> columns and \<^verbatim>\<open>t + b\<close> rows of the fill colour.
  The fill colour has three components: PIL takes it for an image of three or four bands
  and raises a TypeError for an image of one or two bands (the modes \<^verbatim>\<open>L\<close>, \<^verbatim>\<open>P\<close>, \<^verbatim>\<open>LA\<close>).
\<close>

definition img_transforms :: "'px image \<Rightarrow> error + 'px tensor" where
  "img_transforms img =
     (case scaled_size img of
        Inl e \<Rightarrow> Inl e
      | Inr (imw, imh) \<Rightarrow>
          if imw \<le> 0 \<or> imh \<le> 0 then Inl ValueError
          else if bands img < 3 then Inl TypeError
          else
            (case pad_amounts imw imh of
               (l, t, r, b) \<Rightarrow>
                 Inr \<lparr>t_width = imw + l + r, t_height = imh + t + b,
                      content_left = l, content_top = t,
                      content_width = imw, content_height = imh,
                      fill = (128, 128, 128), source = img\<rparr>))"

text \<open>
  \<^verbatim>\<open>detect_objects(model, img)\<close>. The forward pass of the network and the non-max
  suppression belong to the library \<^verbatim>\<open>yolo_pytorch\<close>; they are parameters here. The forward
  pass gets the model object and may change it, so it returns the model too.
  \<^verbatim>\<open>non_max_suppression\<close> returns one entry per image of the batch, \<^verbatim>\<open>None\<close> where nothing
  passed the thresholds, and \<^verbatim>\<open>detections[0]\<close> takes the first.
  \<^verbatim>\<open>cuda_available\<close> is \<^verbatim>\<open>torch.cuda.is_available()\<close>.
  The result is the model object after the call and what the call returned or raised.
\<close>

definition detect_objects ::
  "bool \<Rightarrow> ('w model \<Rightarrow> 'px tensor \<Rightarrow> 'w model \<times> 'p) \<Rightarrow>
   ('p \<Rightarrow> rat \<Rightarrow> rat \<Rightarrow> detection list option list) \<Rightarrow>
   'w model \<Rightarrow> 'px image \<Rightarrow> 'w model \<times> (error + detection list option)" where
  "detect_objects cuda_available forward non_max_suppression model img =
     (let m1 = (if cuda_available then model_cuda model else model);
          m2 = model_eval m1
      in case img_transforms img of
           Inl e \<Rightarrow> (m2, Inl e)
         | Inr image_tensor \<Rightarrow>
             (case forward m2 image_tensor of
                (m3, p) \<Rightarrow>
                  (case non_max_suppression p (8 / 10) (4 / 10) of
                     [] \<Rightarrow> (m3, Inl IndexError)
                   | d # _ \<Rightarrow> (m3, Inr d))))"

text \<open>
  Modelled from the spec: the forward pass of the network (\<^verbatim>\<open>yolo_pytorch/models.py\<close>, a
  file of the repository that is not among the sources). The spec has the loaded model
  "reused read-only" and "read-only thereafter": a forward pass in evaluation mode returns
  the model object as it was given.
\<close>

definition read_only :: "('w model \<Rightarrow> 'px tensor \<Rightarrow> 'w model \<times> 'p) \<Rightarrow> bool" where
  "read_only forward \<longleftrightarrow> (\<forall>m t. \<not> training m \<longrightarrow> fst (forward m t) = m)"

subsection \<open>show\_objects\<close>

text \<open>\<^verbatim>\<open>np.array(img).shape\<close>: (height, width) for a one-band image, (height, width, bands)
  otherwise.\<close>

definition shape :: "'px image \<Rightarrow> nat list" where
  "shape img =
     (if bands img = 1 then [height img, width img]
      else [height img, width img, bands img])"

text \<open>
  \<^verbatim>\<open>
  pad_x = max(img.shape[0] - img.shape[1], 0) * (img_size / max(img.shape))
  pad_y = max(img.shape[1] - img.shape[0], 0) * (img_size / max(img.shape))
  unpad_h = img_size - pad_y
  unpad_w = img_size - pad_x
  \<close>
  The sizes are Python ints; the quotient, the product and the difference are doubles.
\<close>

definition pad_x :: "'px image \<Rightarrow> rat" where
  "pad_x img =
     binary64 (of_int (max (int (height img) - int (width img)) 0)
       * binary64 (of_nat img_size / of_nat (max_list (shape img))))"

definition pad_y :: "'px image \<Rightarrow> rat" where
  "pad_y img =
     binary64 (of_int (max (int (width img) - int (height img)) 0)
       * binary64 (of_nat img_size / of_nat (max_list (shape img))))"

definition unpad_h :: "'px image \<Rightarrow> rat" where
  "unpad_h img = binary64 (of_nat img_size - pad_y img)"

definition unpad_w :: "'px image \<Rightarrow> rat" where
  "unpad_w img = binary64 (of_nat img_size - pad_x img)"

text \<open>
  The map of a network-space coordinate to image pixels:
  \<^verbatim>\<open>
  y1 = ((y1 - pad_y // 2) / unpad_h) * img.shape[0]
  x1 = ((x1 - pad_x // 2) / unpad_w) * img.shape[1]
  \<close>
  \<^verbatim>\<open>pad // 2\<close> is a Python float; the subtraction, the division and the multiplication are
  tensor operations.
\<close>

definition rescale_x :: "'px image \<Rightarrow> rat \<Rightarrow> rat" where
  "rescale_x img x = ((x - floordiv (pad_x img) 2) / unpad_w img) * of_nat (width img)"

definition rescale_y :: "'px image \<Rightarrow> rat \<Rightarrow> rat" where
  "rescale_y img y = ((y - floordiv (pad_y img) 2) / unpad_h img) * of_nat (height img)"

text \<open>A \<^verbatim>\<open>patches.Rectangle((x, y), w, h, edgecolor=color)\<close> with the label written at its
  corner: the class name and the class confidence.\<close>

record 'c rectangle =
  rect_x :: rat
  rect_y :: rat
  rect_w :: rat
  rect_h :: rat
  edgecolor :: 'c
  label :: "string \<times> rat"

text \<open>
  \<^verbatim>\<open>
  box_h = ((y2 - y1) / unpad_h) * img.shape[0]
  box_w = ((x2 - x1) / unpad_w) * img.shape[1]
  \<close>
  and the two rescaled corner coordinates.
\<close>

definition bbox :: "'px image \<Rightarrow> detection \<Rightarrow> 'c \<Rightarrow> string \<Rightarrow> 'c rectangle" where
  "bbox img d color predicted_class =
     \<lparr>rect_x = rescale_x img (x1 d), rect_y = rescale_y img (y1 d),
      rect_w = ((x2 d - x1 d) / unpad_w img) * of_nat (width img),
      rect_h = ((y2 d - y1 d) / unpad_h img) * of_nat (height img),
      edgecolor = color, label = (predicted_class, cls_conf d)\<rparr>"

text \<open>\<^verbatim>\<open>colors = [cmap(i) for i in np.linspace(0, 1, 20)]\<close>: the colour map, a parameter,
  at the 20 points 0, 1/19, ..., 1.\<close>

definition colors :: "(rat \<Rightarrow> 'c) \<Rightarrow> 'c list" where
  "colors cmap = map (\<lambda>i. cmap (of_nat i / 19)) [0..<20]"

text \<open>
  \<^verbatim>\<open>random.sample(population, k)\<close> of the standard library, for a population of at most 21
  elements (the palette has 20):
  \<^verbatim>\<open>
  n = len(population)
  if not 0 <= k <= n: raise ValueError("Sample larger than population or is negative")
  result = [None] * k
  pool = list(population)
  for i in range(k):
      j = randbelow(n-i)
      result[i] = pool[j]
      pool[j] = pool[n-i-1]
  return result
  \<close>
  The generator is a parameter: \<open>rnd i\<close> is the raw value behind the \<open>i\<close>-th call of
  \<^verbatim>\<open>randbelow\<close>, which reduces it below its argument.
\<close>

definition sample_step :: "(nat \<Rightarrow> nat) \<Rightarrow> nat \<Rightarrow> 'a list \<times> 'a list \<Rightarrow> nat \<Rightarrow> 'a list \<times> 'a list" where
  "sample_step rnd n st i =
     (case st of (result, pool) \<Rightarrow>
        let j = rnd i mod (n - i)
        in (result @ [pool ! j], pool[j := pool ! (n - i - 1)]))"

definition random_sample :: "(nat \<Rightarrow> nat) \<Rightarrow> 'a list \<Rightarrow> nat \<Rightarrow> error + 'a list" where
  "random_sample rnd population k =
     (let n = length population
      in if n < k then Inl ValueError
         else Inr (fst (foldl (sample_step rnd n) ([], population) [0..<k])))"

text \<open>\<^verbatim>\<open>detections[:, -1].cpu().unique()\<close>: the class labels of the detections without
  repetition (torch fixes no order for them in this version; the model sorts them).\<close>

definition unique :: "nat list \<Rightarrow> nat list" where
  "unique xs = sort (remdups xs)"

text \<open>\<^verbatim>\<open>int(np.where(unique_labels == int(cls_pred))[0])\<close>: the positions that hold the
  label; \<^verbatim>\<open>int\<close> of an array raises TypeError unless the array has exactly one element.\<close>

definition label_index :: "nat list \<Rightarrow> nat \<Rightarrow> error + nat" where
  "label_index unique_labels c =
     (case filter (\<lambda>i. unique_labels ! i = c) [0..<length unique_labels] of
        [i] \<Rightarrow> Inr i
      | _ \<Rightarrow> Inl TypeError)"

text \<open>
  The drawing loop \<^verbatim>\<open>for x1, y1, x2, y2, conf, cls_conf, cls_pred in detections\<close>. Each
  round reads \<^verbatim>\<open>classes[int(cls_pred)]\<close> and \<^verbatim>\<open>bbox_colors[...]\<close> (IndexError out of
  range) and adds one rectangle to the axes. The result is the rectangles added so far and
  the error that stopped the loop, if any.
\<close>

fun draw_loop ::
  "string list \<Rightarrow> nat list \<Rightarrow> 'c list \<Rightarrow> 'px image \<Rightarrow> detection list \<Rightarrow>
   'c rectangle list \<Rightarrow> 'c rectangle list \<times> error option" where
  "draw_loop classes unique_labels bbox_colors img [] drawn = (drawn, None)"
| "draw_loop classes unique_labels bbox_colors img (d # ds) drawn =
     (if length classes \<le> cls_pred d then (drawn, Some IndexError)
      else
        (case label_index unique_labels (cls_pred d) of
           Inl e \<Rightarrow> (drawn, Some e)
         | Inr k \<Rightarrow>
             if length bbox_colors \<le> k then (drawn, Some IndexError)
             else draw_loop classes unique_labels bbox_colors img ds
                    (drawn @ [bbox img d (bbox_colors ! k) (classes ! cls_pred d)])))"

text \<open>
  \<^verbatim>\<open>show_objects(img, detections)\<close>. The colour map \<^verbatim>\<open>tab20b\<close>, the class names read by
  \<^verbatim>\<open>load_classes\<close> and the random generator are parameters. The result is the list of
  rectangles added to the axes and the error raised, if any (None: the figure was shown).
\<close>

definition show_objects ::
  "(rat \<Rightarrow> 'c) \<Rightarrow> string list \<Rightarrow> (nat \<Rightarrow> nat) \<Rightarrow> 'px image \<Rightarrow> detection list option \<Rightarrow>
   'c rectangle list \<times> error option" where
  "show_objects cmap classes rnd img detections =
     (if max_list (shape img) = 0 then ([], Some ZeroDivisionError)
      else
        (case detections of
           None \<Rightarrow> ([], None)
         | Some ds \<Rightarrow>
             let unique_labels = unique (map cls_pred ds);
                 n_cls_preds = length unique_labels
             in (case random_sample rnd (colors cmap) n_cls_preds of
                   Inl e \<Rightarrow> ([], Some e)
                 | Inr bbox_colors \<Rightarrow> draw_loop classes unique_labels bbox_colors img ds [])))"

subsection \<open>The test-image loop\<close>

text \<open>The console line \<^verbatim>\<open>'Found {} objects in {}'.format(len(detections), image_file)\<close>.\<close>

datatype console_line = Found nat string

text \<open>What the notebook has produced so far: the model object, the lines printed and, per
  displayed image, the rectangles drawn on it.\<close>

record ('w, 'c) notebook =
  nb_model :: "'w model"
  console :: "console_line list"
  figures :: "'c rectangle list list"

text \<open>
  \<^verbatim>\<open>
  for image_file in os.listdir(test_dir):
      image = Image.open(img_path)
      detections = detect_objects(model, image)
      print('Found {} objects in {}'.format(len(detections), image_file))
      show_objects(image, detections)
  \<close>
  over the decoded files. \<^verbatim>\<open>len(None)\<close> raises TypeError. An error ends the loop; the
  result is the state reached and that error. \<open>rnd k\<close> is the generator's stream while
  the \<open>k\<close>-th image is drawn.
\<close>

fun test_image_loop ::
  "bool \<Rightarrow> ('w model \<Rightarrow> 'px tensor \<Rightarrow> 'w model \<times> 'p) \<Rightarrow>
   ('p \<Rightarrow> rat \<Rightarrow> rat \<Rightarrow> detection list option list) \<Rightarrow>
   (rat \<Rightarrow> 'c) \<Rightarrow> string list \<Rightarrow> (nat \<Rightarrow> nat \<Rightarrow> nat) \<Rightarrow>
   (string \<times> 'px image) list \<Rightarrow> ('w, 'c) notebook \<Rightarrow> ('w, 'c) notebook \<times> error option" where
  "test_image_loop cuda_available forward non_max_suppression cmap classes rnd [] nb = (nb, None)"
| "test_image_loop cuda_available forward non_max_suppression cmap classes rnd
     ((image_file, img) # files) nb =
     (case detect_objects cuda_available forward non_max_suppression (nb_model nb) img of
        (m, Inl e) \<Rightarrow> (nb\<lparr>nb_model := m\<rparr>, Some e)
      | (m, Inr None) \<Rightarrow> (nb\<lparr>nb_model := m\<rparr>, Some TypeError)
      | (m, Inr (Some ds)) \<Rightarrow>
          (let nb1 = nb\<lparr>nb_model := m, console := console nb @ [Found (length ds) image_file]\<rparr>
           in case show_objects cmap classes (rnd (length (figures nb))) img (Some ds) of
                (drawn, Some e) \<Rightarrow> (nb1\<lparr>figures := figures nb1 @ [drawn]\<rparr>, Some e)
              | (drawn, None) \<Rightarrow>
                  test_image_loop cuda_available forward non_max_suppression cmap classes rnd
                    files (nb1\<lparr>figures := figures nb1 @ [drawn]\<rparr>)))"

section \<open>Auxiliary facts\<close>

subsection \<open>The largest entry of the shape\<close>

lemma fold_max_ge: "(a::nat) \<le> fold max xs a"
  by (induction xs arbitrary: a) (auto intro: order_trans [OF max.cobounded2])

lemma fold_max_mem: "(x::nat) \<in> set xs \<Longrightarrow> x \<le> fold max xs a"
proof (induction xs arbitrary: a)
  case Nil
  then show ?case by simp
next
  case (Cons y ys)
  show ?case
  proof (cases "x = y")
    case True
    have "y \<le> max y a" by simp
    also have "\<dots> \<le> fold max ys (max y a)" by (rule fold_max_ge)
    finally show ?thesis using True by simp
  next
    case False
    with Cons.prems have "x \<in> set ys" by simp
    then show ?thesis using Cons.IH by simp
  qed
qed

lemma height_le_max_shape: "height img \<le> max_list (shape img)"
  unfolding max_list_def by (rule fold_max_mem) (simp add: shape_def)

lemma width_le_max_shape: "width img \<le> max_list (shape img)"
  unfolding max_list_def by (rule fold_max_mem) (simp add: shape_def)

subsection \<open>Rounding\<close>

lemma py_round_of_int: "py_round (of_int n) = n"
  by (simp add: py_round_def)

lemma py_round_near: "\<bar>of_int (py_round x) - x\<bar> \<le> 1 / 2"
proof -
  define f where "f = \<lfloor>x\<rfloor>"
  have b: "of_int f \<le> x" "x < of_int f + 1" unfolding f_def by linarith+
  have "py_round x = f \<and> x - of_int f \<le> 1 / 2 \<or> py_round x = f + 1 \<and> 1 / 2 \<le> x - of_int f"
    unfolding py_round_def Let_def f_def [symmetric] by auto
  then show ?thesis
  proof
    assume "py_round x = f \<and> x - of_int f \<le> 1 / 2"
    with b show ?thesis unfolding abs_le_iff by simp
  next
    assume a: "py_round x = f + 1 \<and> 1 / 2 \<le> x - of_int f"
    then have "of_int (py_round x) = (of_int f :: rat) + 1" by simp
    with a b show ?thesis unfolding abs_le_iff by linarith
  qed
qed

lemma py_round_eq:
  assumes "\<bar>x - of_int n\<bar> < 1 / 2"
  shows "py_round x = n"
proof -
  have "\<bar>of_int (py_round x) - (of_int n :: rat)\<bar> \<le> \<bar>of_int (py_round x) - x\<bar> + \<bar>x - of_int n\<bar>"
    by simp
  also have "\<dots> < 1 / 2 + 1 / 2" using py_round_near [of x] assms by simp
  finally have "\<bar>(of_int (py_round x - n) :: rat)\<bar> < 1" by simp
  then have "\<bar>py_round x - n\<bar> < 1" by (simp only: of_int_abs [symmetric] of_int_less_1_iff)
  then show ?thesis by simp
qed

lemma py_round_le:
  assumes "x < of_int n + 1 / 2"
  shows "py_round x \<le> n"
proof -
  have "(of_int (py_round x) :: rat) \<le> x + 1 / 2"
    using py_round_near [of x] unfolding abs_le_iff by linarith
  also have "\<dots> < of_int n + 1" using assms by simp
  finally have "(of_int (py_round x) :: rat) < of_int (n + 1)" by simp
  then have "py_round x < n + 1" by (simp only: of_int_less_iff)
  then show ?thesis by simp
qed

lemma binary64_pos_error:
  "0 < x \<Longrightarrow> \<bar>binary64_pos x - x\<bar> \<le> x / 9007199254740992"
proof (induction x rule: binary64_pos.induct)
  case (1 x)
  note pos = \<open>0 < x\<close>
  consider (halve) "9007199254740992 \<le> x"
    | (double) "x < 4503599627370496"
    | (round) "4503599627370496 \<le> x" "x < 9007199254740992"
    by linarith
  then show ?case
  proof cases
    case halve
    with 1 have "\<bar>binary64_pos (x / 2) - x / 2\<bar> \<le> x / 2 / 9007199254740992" by simp
    moreover have "binary64_pos x = 2 * binary64_pos (x / 2)"
      using halve pos by (subst binary64_pos.simps) simp
    ultimately show ?thesis unfolding abs_le_iff by linarith
  next
    case double
    with 1 pos have "\<bar>binary64_pos (2 * x) - 2 * x\<bar> \<le> 2 * x / 9007199254740992" by simp
    moreover have "binary64_pos x = binary64_pos (2 * x) / 2"
      using double pos by (subst binary64_pos.simps) simp
    ultimately show ?thesis unfolding abs_le_iff by linarith
  next
    case round
    have "binary64_pos x = of_int (py_round x)"
      using round pos by (subst binary64_pos.simps) simp
    moreover have "1 / 2 \<le> x / 9007199254740992" using round by simp
    ultimately show ?thesis using py_round_near [of x] by linarith
  qed
qed

lemma binary64_pos_bounds:
  assumes "0 < x"
  shows "x * (1 - 1 / 9007199254740992) \<le> binary64_pos x"
    and "binary64_pos x \<le> x * (1 + 1 / 9007199254740992)"
proof -
  have e: "x * (1 - 1 / 9007199254740992) = x - x / 9007199254740992"
    "x * (1 + 1 / 9007199254740992) = x + x / 9007199254740992"
    by (simp_all add: algebra_simps)
  from binary64_pos_error [OF assms]
  show "x * (1 - 1 / 9007199254740992) \<le> binary64_pos x"
    and "binary64_pos x \<le> x * (1 + 1 / 9007199254740992)"
    unfolding e abs_le_iff by linarith+
qed

lemma binary64_pos_pos: "0 < x \<Longrightarrow> 0 < binary64_pos x"
proof -
  assume x: "0 < x"
  then have "0 < x * (1 - 1 / 9007199254740992)" by simp
  also have "\<dots> \<le> binary64_pos x" using x by (rule binary64_pos_bounds)
  finally show ?thesis .
qed

lemma binary64_0: "binary64 0 = 0"
  by (simp add: binary64_def binary64_pos.simps)

lemma binary64_pos_iff: "0 < x \<Longrightarrow> 0 < binary64 x"
  by (simp add: binary64_def binary64_pos_pos)

lemma binary64_bounds:
  assumes "0 < x"
  shows "x * (1 - 1 / 9007199254740992) \<le> binary64 x"
    and "binary64 x \<le> x * (1 + 1 / 9007199254740992)"
  using binary64_pos_bounds [OF assms] assms by (simp_all add: binary64_def)

lemma binary64_416: "binary64 416 = 416"
  by (simp add: binary64_def binary64_pos.simps py_round_def)

subsection \<open>random.sample selects without repetition\<close>

lemma swap_remove_mset:
  assumes "j < length A"
  shows "mset (A ! j # butlast (A[j := last A])) = mset A"
proof (cases "j = length A - 1")
  case True
  with assms have ne: "A \<noteq> []" by auto
  have "A ! j = last A" using True ne by (simp add: last_conv_nth)
  moreover have "butlast (A[j := last A]) = butlast A"
    using True by (simp add: butlast_list_update)
  ultimately have "mset (A ! j # butlast (A[j := last A])) = mset (butlast A @ [last A])"
    by simp
  also have "butlast A @ [last A] = A" using ne by simp
  finally show ?thesis .
next
  case False
  with assms have ne: "A \<noteq> []" and jb: "j < length (butlast A)" by auto
  have nth: "butlast A ! j = A ! j" using jb by (simp add: nth_butlast)
  have "butlast (A[j := last A]) = (butlast A)[j := last A]"
    using False by (simp add: butlast_list_update)
  then have "mset (A ! j # butlast (A[j := last A]))
               = add_mset (A ! j) (add_mset (last A) (mset (butlast A) - {#butlast A ! j#}))"
    using jb by (simp add: mset_update)
  also have "\<dots> = add_mset (last A) (mset (butlast A))"
    using jb by (simp add: nth [symmetric] del: nth_butlast)
  also have "\<dots> = mset (butlast A @ [last A])" by simp
  also have "butlast A @ [last A] = A" using ne by simp
  finally show ?thesis .
qed

lemma sample_step_inv:
  assumes "i < n" and "length pool = n"
    and "sample_step rnd n (result, pool) i = (result', pool')"
  shows "length pool' = n \<and> length result' = Suc (length result)
       \<and> mset (result' @ take (n - Suc i) pool') = mset (result @ take (n - i) pool)"
proof -
  define j where "j = rnd i mod (n - i)"
  define A where "A = take (n - i) pool"
  from assms(1) have jlt: "j < n - i" unfolding j_def by simp
  have lenA: "length A = n - i" unfolding A_def using assms(2) by simp
  have r: "result' = result @ [pool ! j]" and p: "pool' = pool[j := pool ! (n - i - 1)]"
    using assms(3) unfolding sample_step_def j_def by (simp_all add: Let_def)
  have Aj: "A ! j = pool ! j" unfolding A_def using jlt by simp
  have lastA: "last A = pool ! (n - i - 1)"
  proof -
    from lenA assms(1) have "A \<noteq> []" by auto
    then have "last A = A ! (length A - 1)" by (rule last_conv_nth)
    also have "\<dots> = pool ! (n - i - 1)" unfolding lenA using assms(1) by (simp add: A_def)
    finally show ?thesis .
  qed
  have "butlast (A[j := last A]) = take (n - Suc i) (A[j := last A])"
    by (simp add: butlast_conv_take lenA)
  also have "\<dots> = (take (n - Suc i) A)[j := last A]"
    by (rule take_update_swap)
  also have "take (n - Suc i) A = take (n - Suc i) pool"
    unfolding A_def by (simp add: min_def)
  finally have "butlast (A[j := last A]) = (take (n - Suc i) pool)[j := pool ! (n - i - 1)]"
    by (simp only: lastA)
  moreover have "take (n - Suc i) pool' = (take (n - Suc i) pool)[j := pool ! (n - i - 1)]"
    unfolding p by (rule take_update_swap)
  ultimately have "take (n - Suc i) pool' = butlast (A[j := last A])"
    by simp
  then have "mset (result' @ take (n - Suc i) pool')
               = mset result + mset (A ! j # butlast (A[j := last A]))"
    by (simp add: r Aj)
  also have "\<dots> = mset (result @ A)"
    using jlt lenA by (simp only: swap_remove_mset) simp
  finally show ?thesis using assms(2) by (simp add: r p A_def)
qed

lemma sample_loop_inv:
  assumes "k \<le> length population"
  shows "case foldl (sample_step rnd (length population)) ([], population) [0..<k] of
           (result, pool) \<Rightarrow>
             length pool = length population \<and> length result = k
           \<and> mset (result @ take (length population - k) pool) = mset population"
  using assms
proof (induction k)
  case 0
  then show ?case by simp
next
  case (Suc k)
  obtain result pool where st:
    "foldl (sample_step rnd (length population)) ([], population) [0..<k] = (result, pool)"
    by (cases "foldl (sample_step rnd (length population)) ([], population) [0..<k]")
  obtain result' pool' where st':
    "sample_step rnd (length population) (result, pool) k = (result', pool')"
    by (cases "sample_step rnd (length population) (result, pool) k")
  from Suc st have inv: "length pool = length population" "length result = k"
    "mset (result @ take (length population - k) pool) = mset population"
    by simp_all
  from Suc.prems have "k < length population" by simp
  from sample_step_inv [OF this inv(1) st'] inv
  show ?case by (simp add: st st')
qed

lemma random_sample_too_many:
  "length population < k \<Longrightarrow> random_sample rnd population k = Inl ValueError"
  by (simp add: random_sample_def Let_def)

lemma random_sample_ok:
  assumes "k \<le> length population"
  obtains result rest where "random_sample rnd population k = Inr result"
    and "length result = k" and "mset (result @ rest) = mset population"
proof -
  obtain result pool where st:
    "foldl (sample_step rnd (length population)) ([], population) [0..<k] = (result, pool)"
    by (cases "foldl (sample_step rnd (length population)) ([], population) [0..<k]")
  from sample_loop_inv [OF assms, of rnd] st
  have len: "length result = k"
    and ms: "mset (result @ take (length population - k) pool) = mset population"
    by simp_all
  have "random_sample rnd population k = Inr result"
    using assms st by (simp add: random_sample_def Let_def)
  then show thesis using len ms by (rule that)
qed

lemma random_sample_distinct:
  assumes "random_sample rnd population k = Inr result" and "distinct population"
  shows "distinct result \<and> set result \<subseteq> set population \<and> length result = k"
proof -
  from assms(1) have "k \<le> length population"
    by (auto simp add: random_sample_def Let_def split: if_splits)
  then obtain r rest where r: "random_sample rnd population k = Inr r"
    and len: "length r = k" and ms: "mset (r @ rest) = mset population"
    by (rule random_sample_ok)
  from r assms(1) have eq: "r = result" by simp
  from ms have "distinct (r @ rest) \<longleftrightarrow> distinct population"
    by (rule mset_eq_imp_distinct_iff)
  with assms(2) have d: "distinct r" by simp
  from ms have "set (r @ rest) = set population" by (rule mset_eq_setD)
  then have "set r \<subseteq> set population" by auto
  with d len eq show ?thesis by simp
qed

subsection \<open>The colour index and the drawing loop\<close>

lemma unique_props: "distinct (unique xs)" "set (unique xs) = set xs"
  by (simp_all add: unique_def)

lemma label_index_Inr:
  assumes "label_index ul c = Inr k"
  shows "k < length ul \<and> ul ! k = c"
proof -
  from assms have "filter (\<lambda>i. ul ! i = c) [0..<length ul] = [k]"
    by (auto simp add: label_index_def split: list.splits)
  then have "k \<in> set (filter (\<lambda>i. ul ! i = c) [0..<length ul])" by simp
  then show ?thesis by simp
qed

lemma label_index_distinct:
  assumes "distinct ul" and "c \<in> set ul"
  shows "\<exists>k. label_index ul c = Inr k"
proof -
  from assms(2) obtain k where k: "k < length ul" "ul ! k = c"
    by (auto simp add: in_set_conv_nth)
  have "set (filter (\<lambda>i. ul ! i = c) [0..<length ul]) = {k}"
    using assms(1) k by (auto simp add: nth_eq_iff_index_eq)
  then have "filter (\<lambda>i. ul ! i = c) [0..<length ul] = [k]"
    by (intro sorted_distinct_set_unique) (simp_all add: sorted_wrt_filter)
  then show ?thesis by (simp add: label_index_def)
qed

lemma draw_loop_drawn:
  assumes "draw_loop classes ul bc img ds acc = (drawn, err)"
  shows "\<exists>new. drawn = acc @ new \<and> length new \<le> length ds
           \<and> (err = None \<longrightarrow> length new = length ds)
           \<and> (\<forall>i<length new. \<exists>k. label_index ul (cls_pred (ds ! i)) = Inr k \<and> k < length bc
                  \<and> new ! i = bbox img (ds ! i) (bc ! k) (classes ! cls_pred (ds ! i)))"
  using assms
proof (induction ds arbitrary: acc)
  case Nil
  then show ?case by simp
next
  case (Cons d ds)
  show ?case
  proof (cases "\<not> length classes \<le> cls_pred d \<and>
                (\<exists>k. label_index ul (cls_pred d) = Inr k \<and> \<not> length bc \<le> k)")
    case False
    with Cons.prems have "drawn = acc" and "err \<noteq> None"
      by (auto split: if_splits sum.splits)
    then show ?thesis by simp
  next
    case True
    then obtain k where k: "label_index ul (cls_pred d) = Inr k" "k < length bc"
      and c: "cls_pred d < length classes" by auto
    let ?r = "bbox img d (bc ! k) (classes ! cls_pred d)"
    from Cons.prems k c
    have "draw_loop classes ul bc img ds (acc @ [?r]) = (drawn, err)" by simp
    from Cons.IH [OF this] obtain new where new: "drawn = (acc @ [?r]) @ new"
      "length new \<le> length ds" "err = None \<longrightarrow> length new = length ds"
      "\<forall>i<length new. \<exists>k. label_index ul (cls_pred (ds ! i)) = Inr k \<and> k < length bc
            \<and> new ! i = bbox img (ds ! i) (bc ! k) (classes ! cls_pred (ds ! i))"
      by blast
    have "\<forall>i<length (?r # new). \<exists>k. label_index ul (cls_pred ((d # ds) ! i)) = Inr k \<and> k < length bc
            \<and> (?r # new) ! i = bbox img ((d # ds) ! i) (bc ! k) (classes ! cls_pred ((d # ds) ! i))"
    proof (intro allI impI)
      fix i assume "i < length (?r # new)"
      then show "\<exists>k. label_index ul (cls_pred ((d # ds) ! i)) = Inr k \<and> k < length bc
            \<and> (?r # new) ! i = bbox img ((d # ds) ! i) (bc ! k) (classes ! cls_pred ((d # ds) ! i))"
        using k new(4) by (cases i) simp_all
    qed
    with new(1-3) show ?thesis
      by (intro exI [of _ "?r # new"]) simp
  qed
qed

lemma draw_loop_ok:
  assumes "\<forall>d\<in>set ds. cls_pred d < length classes
             \<and> (\<exists>k. label_index ul (cls_pred d) = Inr k \<and> k < length bc)"
  shows "snd (draw_loop classes ul bc img ds acc) = None"
  using assms by (induction ds arbitrary: acc) auto

subsection \<open>What show\_objects draws\<close>

lemma length_colors: "length (colors cmap) = 20"
  by (simp add: colors_def)

lemma show_objects_drawn:
  assumes "i < length (fst (show_objects cmap classes rnd img (Some ds)))"
  shows "i < length ds
       \<and> (\<exists>c n. fst (show_objects cmap classes rnd img (Some ds)) ! i = bbox img (ds ! i) c n)"
proof -
  let ?ul = "unique (map cls_pred ds)"
  from assms have m: "max_list (shape img) \<noteq> 0"
    by (auto simp add: show_objects_def split: if_splits)
  from assms m obtain bc where bc: "random_sample rnd (colors cmap) (length ?ul) = Inr bc"
    by (cases "random_sample rnd (colors cmap) (length ?ul)")
      (simp_all add: show_objects_def Let_def)
  obtain drawn err where dl: "draw_loop classes ?ul bc img ds [] = (drawn, err)"
    by (cases "draw_loop classes ?ul bc img ds []")
  from m bc dl have so: "show_objects cmap classes rnd img (Some ds) = (drawn, err)"
    by (simp add: show_objects_def Let_def)
  from draw_loop_drawn [OF dl] obtain new where new: "drawn = [] @ new"
    "length new \<le> length ds"
    "\<forall>i<length new. \<exists>k. label_index ?ul (cls_pred (ds ! i)) = Inr k \<and> k < length bc
          \<and> new ! i = bbox img (ds ! i) (bc ! k) (classes ! cls_pred (ds ! i))"
    by blast
  from assms so new(1) have il: "i < length new" by simp
  with new(3) obtain k where "new ! i = bbox img (ds ! i) (bc ! k) (classes ! cls_pred (ds ! i))"
    by blast
  with il new(1,2) show ?thesis by (auto simp add: so)
qed

lemma show_objects_ok:
  assumes "max_list (shape img) \<noteq> 0"
    and "length (unique (map cls_pred ds)) \<le> 20"
    and "\<forall>d\<in>set ds. cls_pred d < length classes"
  obtains bbox_colors where
    "random_sample rnd (colors cmap) (length (unique (map cls_pred ds))) = Inr bbox_colors"
    and "length bbox_colors = length (unique (map cls_pred ds))"
    and "snd (show_objects cmap classes rnd img (Some ds)) = None"
    and "length (fst (show_objects cmap classes rnd img (Some ds))) = length ds"
    and "\<forall>i<length ds. \<exists>k. label_index (unique (map cls_pred ds)) (cls_pred (ds ! i)) = Inr k
            \<and> k < length bbox_colors
            \<and> fst (show_objects cmap classes rnd img (Some ds)) ! i
                = bbox img (ds ! i) (bbox_colors ! k) (classes ! cls_pred (ds ! i))"
proof -
  let ?ul = "unique (map cls_pred ds)"
  from assms(2) have "length ?ul \<le> length (colors cmap)" by (simp add: length_colors)
  then obtain bc rest where bc: "random_sample rnd (colors cmap) (length ?ul) = Inr bc"
    and len: "length bc = length ?ul"
    by (rule random_sample_ok)
  obtain drawn err where dl: "draw_loop classes ?ul bc img ds [] = (drawn, err)"
    by (cases "draw_loop classes ?ul bc img ds []")
  from assms(1) bc dl have so: "show_objects cmap classes rnd img (Some ds) = (drawn, err)"
    by (simp add: show_objects_def Let_def)
  have "\<forall>d\<in>set ds. cls_pred d < length classes
          \<and> (\<exists>k. label_index ?ul (cls_pred d) = Inr k \<and> k < length bc)"
  proof
    fix d assume d: "d \<in> set ds"
    then have "cls_pred d \<in> set ?ul" by (simp add: unique_props)
    with unique_props(1) obtain k where k: "label_index ?ul (cls_pred d) = Inr k"
      using label_index_distinct by blast
    from label_index_Inr [OF k] len have "k < length bc" by simp
    with k d assms(3) show "cls_pred d < length classes
          \<and> (\<exists>k. label_index ?ul (cls_pred d) = Inr k \<and> k < length bc)" by blast
  qed
  then have "snd (draw_loop classes ?ul bc img ds []) = None" by (rule draw_loop_ok)
  with dl have err: "err = None" by simp
  from draw_loop_drawn [OF dl] err
  have l: "length drawn = length ds"
    and nth: "\<forall>i<length ds. \<exists>k. label_index ?ul (cls_pred (ds ! i)) = Inr k \<and> k < length bc
                \<and> drawn ! i = bbox img (ds ! i) (bc ! k) (classes ! cls_pred (ds ! i))"
    by auto
  show thesis
    by (rule that [OF bc len]) (simp_all add: so err l nth)
qed

lemma bbox_left_iff:
  fixes a f u w :: rat
  assumes "0 < u" and "0 < w"
  shows "0 \<le> ((a - f) / u) * w \<longleftrightarrow> f \<le> a"
  using assms by (simp add: zero_le_mult_iff zero_le_divide_iff)

lemma bbox_right_iff:
  fixes a b f u w :: rat
  assumes "0 < u" and "0 < w"
  shows "((a - f) / u) * w + ((b - a) / u) * w \<le> w \<longleftrightarrow> b \<le> f + u"
proof -
  have "((a - f) / u) * w + ((b - a) / u) * w = ((b - f) / u) * w"
    by (simp add: distrib_right [symmetric] add_divide_distrib [symmetric])
  also have "\<dots> \<le> w \<longleftrightarrow> (b - f) / u \<le> 1"
    using assms(2) mult_le_cancel_right [of "(b - f) / u" w 1] by simp
  also have "\<dots> \<longleftrightarrow> b \<le> f + u"
    using assms(1) by (simp add: field_simps)
  finally show ?thesis .
qed

subsection \<open>Evaluating the arithmetic on numerals\<close>

lemma floor_rat_numeral_div:
  "\<lfloor>(numeral a :: rat) / numeral b\<rfloor> = numeral a div numeral b"
  using floor_divide_of_int_eq [of "numeral a" "numeral b", where ?'a = rat] by simp

lemmas binary64_defs = binary64_def binary64_pos.simps py_round_def floor_rat_numeral_div

lemmas rescale_defs = rescale_x_def rescale_y_def pad_x_def pad_y_def unpad_w_def unpad_h_def
  floordiv_def shape_def max_list_def img_size_def binary64_defs

subsection \<open>More on detect\_objects and show\_objects\<close>

lemma detect_objects_Inr_size:
  assumes "detect_objects ca fw nms model img = (m, Inr r)"
  shows "0 < width img \<and> 0 < height img"
proof -
  from assms have "\<exists>t. img_transforms img = Inr t"
    by (cases "img_transforms img") (simp_all add: detect_objects_def Let_def)
  then have "\<exists>s. scaled_size img = Inr s"
    by (cases "scaled_size img") (simp_all add: img_transforms_def)
  then show ?thesis
    by (auto simp add: scaled_size_def split: if_splits)
qed

lemma show_objects_too_many:
  assumes "20 < length (unique (map cls_pred ds))"
  shows "show_objects cmap classes rnd img (Some ds)
           = ([], Some (if max_list (shape img) = 0 then ZeroDivisionError else ValueError))"
proof -
  from assms have "length (colors cmap) < length (unique (map cls_pred ds))"
    by (simp add: length_colors)
  then have "random_sample rnd (colors cmap) (length (unique (map cls_pred ds))) = Inl ValueError"
    by (rule random_sample_too_many)
  then show ?thesis by (simp add: show_objects_def Let_def)
qed

lemma unique_distinct_length: "distinct xs \<Longrightarrow> length (unique xs) = length xs"
  by (simp add: unique_def)

lemma distinct_colors_id: "distinct (colors id)"
  by (simp add: colors_def distinct_map inj_on_def)

lemma detect_objects_model_after:
  assumes "read_only forward"
  shows "fst (detect_objects ca forward nms model img)
           = model_eval (if ca then model_cuda model else model)"
proof -
  let ?m2 = "model_eval (if ca then model_cuda model else model)"
  have nt: "\<not> training ?m2" by (simp add: model_eval_def)
  show ?thesis
  proof (cases "img_transforms img")
    case (Inl e)
    then show ?thesis by (simp add: detect_objects_def Let_def)
  next
    case (Inr t)
    obtain m3 p where f: "forward ?m2 t = (m3, p)" by (cases "forward ?m2 t")
    from assms nt have "fst (forward ?m2 t) = ?m2"
      unfolding read_only_def by blast
    with f have "m3 = ?m2" by simp
    with Inr f show ?thesis
      by (cases "nms p (8 / 10) (4 / 10)") (simp_all add: detect_objects_def Let_def)
  qed
qed

lemma model_prepare_idem:
  "model_eval (if ca then model_cuda (model_eval (if ca then model_cuda m else m))
               else model_eval (if ca then model_cuda m else m))
     = model_eval (if ca then model_cuda m else m)"
  by (simp add: model_eval_def model_cuda_def)

lemma detect_objects_prepared:
  "detect_objects ca forward nms (model_eval (if ca then model_cuda model else model)) img
     = detect_objects ca forward nms model img"
  unfolding detect_objects_def Let_def by (simp only: model_prepare_idem)

lemmas letterbox_unfold = img_transforms_def scaled_size_def img_size_def Let_def

lemmas letterbox_eval = pad_amounts_def py_int_def binary64_defs

subsection \<open>The padding is smaller than the network input\<close>

text \<open>The entries of the shape of an array are C integers, below \<open>2^31\<close> (2147483648).\<close>

lemma pad_lt_img_size:
  fixes n M :: rat
  assumes "0 \<le> n" and "n \<le> M - 1" and "M < 2147483648"
  shows "binary64 (n * binary64 (416 / M)) < 416"
proof (cases "n = 0")
  case True
  then show ?thesis by (simp add: binary64_0)
next
  case False
  with assms have n: "0 < n" and M: "1 < M" by simp_all
  define e :: rat where "e = 1 + 1 / 9007199254740992"
  define d :: rat where "d = 1 + 1 / 2147483648"
  define q where "q = binary64 (416 / M)"
  define t where "t = (M - 1) / M"
  have e: "0 < e" and e2: "e * e \<le> d" by (simp_all add: e_def d_def)
  from M have t: "0 < t" unfolding t_def by simp
  from M have qpos: "0 < 416 / M" by simp
  then have q: "0 < q" unfolding q_def by (rule binary64_pos_iff)
  from qpos have qle: "q \<le> 416 / M * e" unfolding q_def e_def by (rule binary64_bounds)
  from n q have nq: "0 < n * q" by simp
  then have "binary64 (n * q) \<le> n * q * e" unfolding e_def by (rule binary64_bounds)
  also have "n * q * e \<le> (M - 1) * (416 / M * e) * e"
    using assms(2) qle n q e by (intro mult_right_mono mult_mono) simp_all
  also have "\<dots> = 416 * t * (e * e)" unfolding t_def by simp
  also have "\<dots> \<le> 416 * t * d"
    using t e2 by (intro mult_left_mono) simp_all
  also have "\<dots> < 416"
  proof -
    have "(M - 1) * d = (M - 1) * 1 + (M - 1) * (1 / 2147483648)"
      unfolding d_def by (rule distrib_left)
    then have "(M - 1) * d = M - 1 + (M - 1) / 2147483648" by simp
    also have "(M - 1) / 2147483648 < 1" using assms(3) by simp
    finally have "(M - 1) * d < M" by simp
    then have "(M - 1) * d / M < 1" using M by simp
    then have "t * d < 1" unfolding t_def by simp
    then have "416 * (t * d) < 416 * 1"
      by (intro mult_strict_left_mono) simp_all
    then show ?thesis by (simp add: mult.assoc)
  qed
  finally show ?thesis unfolding q_def .
qed

lemma unpad_pos:
  fixes a b m :: nat
  assumes "0 < b" and "a \<le> m" and "0 < m" and "m < 2147483648"
  shows "0 < binary64 (of_nat img_size
           - binary64 (of_int (max (int a - int b) 0) * binary64 (of_nat img_size / of_nat m)))"
proof -
  let ?n = "of_int (max (int a - int b) 0) :: rat"
  have "max (int a - int b) 0 \<le> int m - 1" using assms(1,2,3) by simp
  then have "?n \<le> of_int (int m - 1)" by (simp only: of_int_le_iff)
  then have le: "?n \<le> of_nat m - 1" by simp
  have "0 \<le> ?n" by simp
  from pad_lt_img_size [OF this le] assms(4)
  have "binary64 (?n * binary64 (416 / of_nat m)) < 416" by simp
  then have "0 < 416 - binary64 (?n * binary64 (416 / of_nat m))" by simp
  then have "0 < binary64 (416 - binary64 (?n * binary64 (416 / of_nat m)))"
    by (rule binary64_pos_iff)
  then show ?thesis by (simp add: img_size_def)
qed

lemma max_shape_pos: "0 < width img \<Longrightarrow> max_list (shape img) \<noteq> 0"
  using width_le_max_shape [of img] by simp

lemma max_shape_pos': "0 < height img \<Longrightarrow> max_list (shape img) \<noteq> 0"
  using height_le_max_shape [of img] by simp

lemma unpad_w_pos:
  "0 < width img \<Longrightarrow> max_list (shape img) < 2147483648 \<Longrightarrow> 0 < unpad_w img"
  unfolding unpad_w_def pad_x_def
  using max_shape_pos [of img] by (intro unpad_pos [OF _ height_le_max_shape]) simp_all

lemma unpad_h_pos:
  "0 < height img \<Longrightarrow> max_list (shape img) < 2147483648 \<Longrightarrow> 0 < unpad_h img"
  unfolding unpad_h_def pad_y_def
  using max_shape_pos' [of img] by (intro unpad_pos [OF _ width_le_max_shape]) simp_all

lemma pad_square:
  assumes "width img = height img"
  shows "pad_x img = 0" and "pad_y img = 0" and "unpad_w img = 416" and "unpad_h img = 416"
  using assms by (simp_all add: pad_x_def pad_y_def unpad_w_def unpad_h_def binary64_0
      binary64_416 img_size_def)

subsection \<open>random.sample selects by position\<close>

lemma sample_step_map:
  assumes "i < n" and "length pool = n"
  shows "sample_step rnd n (map f result, map f pool) i
           = (case sample_step rnd n (result, pool) i of (r, p) \<Rightarrow> (map f r, map f p))"
proof -
  from assms(1) have "rnd i mod (n - i) < n - i" by simp
  then have "rnd i mod (n - i) < n" by (rule less_le_trans) simp
  then have j: "rnd i mod (n - i) < length pool" by (simp only: assms(2))
  from assms have l: "n - i - 1 < length pool" by simp
  from j l show ?thesis
    by (simp add: sample_step_def Let_def map_update)
qed

lemma sample_loop_map:
  assumes "k \<le> length xs"
  shows "foldl (sample_step rnd (length xs)) ([], map f xs) [0..<k]
           = (case foldl (sample_step rnd (length xs)) ([], xs) [0..<k] of
                (r, p) \<Rightarrow> (map f r, map f p))"
  using assms
proof (induction k)
  case 0
  then show ?case by simp
next
  case (Suc k)
  obtain r p where st: "foldl (sample_step rnd (length xs)) ([], xs) [0..<k] = (r, p)"
    by (cases "foldl (sample_step rnd (length xs)) ([], xs) [0..<k]")
  from Suc.prems have k: "k < length xs" by simp
  from sample_loop_inv [of k xs rnd] k st have len: "length p = length xs" by simp
  from Suc.IH k st
  have "foldl (sample_step rnd (length xs)) ([], map f xs) [0..<k] = (map f r, map f p)"
    by simp
  then show ?case
    by (simp add: st sample_step_map [OF k len])
qed

lemma random_sample_positions:
  assumes "random_sample rnd population k = Inr result"
  shows "\<exists>positions. length positions = k \<and> distinct positions
           \<and> (\<forall>i\<in>set positions. i < length population)
           \<and> result = map (\<lambda>i. population ! i) positions"
proof -
  let ?n = "length population"
  from assms have k: "k \<le> ?n"
    by (auto simp add: random_sample_def Let_def split: if_splits)
  then obtain positions rest where p: "random_sample rnd [0..<?n] k = Inr positions"
    and len: "length positions = k"
    using random_sample_ok [of k "[0..<?n]" rnd] by auto
  from random_sample_distinct [OF p] have d: "distinct positions"
    and sub: "set positions \<subseteq> set [0..<?n]" by simp_all
  have pos: "positions = fst (foldl (sample_step rnd ?n) ([], [0..<?n]) [0..<k])"
    using p k by (simp add: random_sample_def Let_def)
  have "population = map (\<lambda>i. population ! i) [0..<?n]" by (simp add: map_nth)
  then have "foldl (sample_step rnd ?n) ([], population) [0..<k]
           = foldl (sample_step rnd (length [0..<?n])) ([], map (\<lambda>i. population ! i) [0..<?n]) [0..<k]"
    by simp
  also have "\<dots> = (case foldl (sample_step rnd (length [0..<?n])) ([], [0..<?n]) [0..<k] of
                (r, p) \<Rightarrow> (map (\<lambda>i. population ! i) r, map (\<lambda>i. population ! i) p))"
    using k by (intro sample_loop_map) simp
  finally have "fst (foldl (sample_step rnd ?n) ([], population) [0..<k])
                  = map (\<lambda>i. population ! i) positions"
    by (simp add: pos split_beta)
  moreover from assms k have "result = fst (foldl (sample_step rnd ?n) ([], population) [0..<k])"
    by (simp add: random_sample_def Let_def)
  ultimately have "result = map (\<lambda>i. population ! i) positions" by simp
  moreover from sub have "\<forall>i\<in>set positions. i < length population" by auto
  ultimately show ?thesis using len d by blast
qed

lemma draw_loop_no_ValueError:
  "snd (draw_loop classes ul bc img ds acc) \<noteq> Some ValueError"
  by (induction ds arbitrary: acc)
    (auto simp add: label_index_def split: sum.splits list.splits)

lemma show_objects_no_ValueError:
  assumes "length (unique (map cls_pred ds)) \<le> 20"
  shows "snd (show_objects cmap classes rnd img (Some ds)) \<noteq> Some ValueError"
proof (cases "max_list (shape img) = 0")
  case True
  then show ?thesis by (simp add: show_objects_def)
next
  case False
  from assms have "length (unique (map cls_pred ds)) \<le> length (colors cmap)"
    by (simp add: length_colors)
  then obtain bc rest where
    "random_sample rnd (colors cmap) (length (unique (map cls_pred ds))) = Inr bc"
    by (rule random_sample_ok)
  with False show ?thesis
    by (simp add: show_objects_def Let_def draw_loop_no_ValueError)
qed

subsection \<open>The size of the letterboxed image\<close>

text \<open>The longer side of the network input is 416; the shorter one is 416 when the
  resized width and height differ by an even number, and 415 otherwise.\<close>

lemma half_pad: "max (py_int (of_int k / 2)) 0 = (if 0 \<le> k then k div 2 else 0)"
proof (cases "0 \<le> k")
  case True
  have "\<lfloor>(of_int k :: rat) / of_int 2\<rfloor> = k div 2" by (rule floor_divide_of_int_eq)
  with True show ?thesis by (simp add: py_int_def)
next
  case False
  then have "(of_int k :: rat) / 2 < 0" by simp
  then have "\<lceil>(of_int k :: rat) / 2\<rceil> \<le> 0" by (simp add: ceiling_le_iff)
  with False show ?thesis by (simp add: py_int_def)
qed

lemma pad_amounts_eq:
  "pad_amounts imw imh =
     (if imw \<le> imh then (imh - imw) div 2 else 0, if imh \<le> imw then (imw - imh) div 2 else 0,
      if imw \<le> imh then (imh - imw) div 2 else 0, if imh \<le> imw then (imw - imh) div 2 else 0)"
  unfolding pad_amounts_def half_pad by auto

lemma scaled_side:
  fixes s r :: rat
  assumes "0 < s" and "0 < r" and "r \<le> binary64 (416 / s)"
  shows "py_round (binary64 (s * r)) \<le> 416"
    and "r = binary64 (416 / s) \<Longrightarrow> py_round (binary64 (s * r)) = 416"
proof -
  define e :: rat where "e = 1 / 9007199254740992"
  define q where "q = binary64 (416 / s)"
  from assms(1) have qp: "0 < 416 / s" by simp
  have q: "416 / s * (1 - e) \<le> q" "q \<le> 416 / s * (1 + e)"
    unfolding q_def e_def using qp by (rule binary64_bounds)+
  have sq: "s * (416 / s * (1 + e)) = 416 * (1 + e)" "s * (416 / s * (1 - e)) = 416 * (1 - e)"
    using assms(1) by simp_all
  from assms have sr: "0 < s * r" by simp
  have b: "s * r * (1 - e) \<le> binary64 (s * r)" "binary64 (s * r) \<le> s * r * (1 + e)"
    unfolding e_def using sr by (rule binary64_bounds)+
  have e: "0 < e" "e < 1" by (simp_all add: e_def)
  have "s * r \<le> s * (416 / s * (1 + e))"
    using assms(1,3) q(2) unfolding q_def [symmetric] by (intro mult_left_mono) simp_all
  then have up: "s * r \<le> 416 * (1 + e)" by (simp only: sq)
  have "binary64 (s * r) \<le> 416 * (1 + e) * (1 + e)"
    using b(2) up e by (intro order_trans [OF b(2)] mult_right_mono) simp_all
  also have "\<dots> < of_int 416 + 1 / 2" by (simp add: e_def)
  finally show "py_round (binary64 (s * r)) \<le> 416" by (rule py_round_le)
  assume "r = binary64 (416 / s)"
  then have rq: "r = q" by (simp add: q_def)
  have "s * (416 / s * (1 - e)) \<le> s * r"
    using assms(1) q(1) unfolding rq by (intro mult_left_mono) simp_all
  then have lo: "416 * (1 - e) \<le> s * r" by (simp only: sq)
  have "416 * (1 - e) * (1 - e) \<le> s * r * (1 - e)"
    using lo e by (intro mult_right_mono) simp_all
  also have "\<dots> \<le> binary64 (s * r)" by (rule b(1))
  finally have lo2: "416 * (1 - e) * (1 - e) \<le> binary64 (s * r)" .
  have "of_int 416 - 1 / 2 < 416 * (1 - e) * (1 - e)" by (simp add: e_def)
  with lo2 have l: "of_int 416 - 1 / 2 < binary64 (s * r)" by simp
  have "binary64 (s * r) \<le> 416 * (1 + e) * (1 + e)"
    using b(2) up e by (intro order_trans [OF b(2)] mult_right_mono) simp_all
  also have "\<dots> < of_int 416 + 1 / 2" by (simp add: e_def)
  finally have u: "binary64 (s * r) < of_int 416 + 1 / 2" .
  from l u have "\<bar>binary64 (s * r) - of_int 416\<bar> < 1 / 2" unfolding abs_less_iff by linarith
  then show "py_round (binary64 (s * r)) = 416" by (rule py_round_eq)
qed

lemma scaled_size_long_side:
  assumes "scaled_size img = Inr (imw, imh)"
  shows "max imw imh = 416"
proof -
  from assms have pos: "0 < width img" "0 < height img"
    by (auto simp add: scaled_size_def split: if_splits)
  let ?W = "of_nat (width img) :: rat" and ?H = "of_nat (height img) :: rat"
  let ?a = "binary64 (416 / ?W)" and ?b = "binary64 (416 / ?H)"
  let ?r = "min ?a ?b"
  from pos have W: "0 < ?W" and H: "0 < ?H" by simp_all
  then have "0 < ?a" and "0 < ?b" by (simp_all add: binary64_pos_iff)
  then have r: "0 < ?r" by simp
  from assms pos have imw: "imw = py_round (binary64 (?W * ?r))"
    and imh: "imh = py_round (binary64 (?H * ?r))"
    by (simp_all add: scaled_size_def img_size_def Let_def)
  have w: "imw \<le> 416" unfolding imw using W r by (rule scaled_side(1)) simp
  have h: "imh \<le> 416" unfolding imh using H r by (rule scaled_side(1)) simp
  have "?r = ?a \<or> ?r = ?b" by (simp add: min_def)
  then show ?thesis
  proof
    assume "?r = ?a"
    with scaled_side(2) [OF W r] have "imw = 416" unfolding imw by simp
    with h show ?thesis by simp
  next
    assume "?r = ?b"
    with scaled_side(2) [OF H r] have "imh = 416" unfolding imh by simp
    with w show ?thesis by simp
  qed
qed

lemma img_transforms_size:
  assumes "img_transforms img = Inr t"
  shows "max (t_width t) (t_height t) = 416
       \<and> min (t_width t) (t_height t)
           = (if even (content_width t - content_height t) then 416 else 415)"
proof -
  from assms obtain imw imh where s: "scaled_size img = Inr (imw, imh)"
    by (cases "scaled_size img") (auto simp add: img_transforms_def)
  from assms s have pos: "0 < imw" "0 < imh" and b: "\<not> bands img < 3"
    by (auto simp add: img_transforms_def split: if_splits)
  from assms s pos b have t: "t_width t = imw + 2 * (if imw \<le> imh then (imh - imw) div 2 else 0)"
    "t_height t = imh + 2 * (if imh \<le> imw then (imw - imh) div 2 else 0)"
    "content_width t = imw" "content_height t = imh"
    by (auto simp add: img_transforms_def pad_amounts_eq)
  from scaled_size_long_side [OF s] have m: "max imw imh = 416" .
  show ?thesis
  proof (cases "imh \<le> imw")
    case True
    with m have w: "imw = 416" by simp
    from True w show ?thesis unfolding t by (auto simp add: w) presburger+
  next
    case False
    with m have h: "imh = 416" by simp
    from False h show ?thesis unfolding t by (auto simp add: h) presburger+
  qed
qed

section \<open>The rescaling of detections to image pixels\<close>

text \<open>
  Claim C1, at two images. The claim has the centre of network space, (208, 208), mapped to
  the centre of a non-square image. For a 500 by 333 image show\_objects computes
  \<open>pad_y = 138.944\<close>, subtracts \<open>pad_y // 2 = 69\<close> and divides by \<open>unpad_h = 277.056\<close>: the
  centre goes to a y between 167 and 168, and the centre of the image is at 166.5. For a 720
  by 540 image the exact padding would be 104, but the double \<open>416 / 720\<close> times 180 is
  103.99999999999999 (the fraction below), so that \<open>pad_y // 2\<close> is 51 and not 52: the
  centre goes to a y between 271 and 272, and the centre of the image is at 270.
\<close>

theorem rescale_center_off:
  "floordiv (pad_y \<lparr>width = 500, height = 333, bands = 3, pixels = ()\<rparr>) 2 = 69
   \<and> 167 < rescale_y \<lparr>width = 500, height = 333, bands = 3, pixels = ()\<rparr> (of_nat img_size / 2)
   \<and> rescale_y \<lparr>width = 500, height = 333, bands = 3, pixels = ()\<rparr> (of_nat img_size / 2) < 168
   \<and> pad_y \<lparr>width = 720, height = 540, bands = 3, pixels = ()\<rparr>
       = 7318349394477055 / 70368744177664
   \<and> floordiv (pad_y \<lparr>width = 720, height = 540, bands = 3, pixels = ()\<rparr>) 2 = 51
   \<and> unpad_h \<lparr>width = 720, height = 540, bands = 3, pixels = ()\<rparr> = 312
   \<and> 271 < rescale_y \<lparr>width = 720, height = 540, bands = 3, pixels = ()\<rparr> (of_nat img_size / 2)
   \<and> rescale_y \<lparr>width = 720, height = 540, bands = 3, pixels = ()\<rparr> (of_nat img_size / 2) < 272"
  by (simp add: rescale_defs)

text \<open>
  Claim C2, as amended. For a square image of positive size both paddings are zero, and
  the rescaling multiplies a network-space coordinate by \<open>size / img_size\<close>: the
  coordinate is unchanged when the image is 416 by 416, and scaled otherwise.
\<close>

theorem square_image_rescale:
  assumes "width img = height img" and "0 < width img"
  shows "pad_x img = 0 \<and> pad_y img = 0
       \<and> rescale_x img x = x * of_nat (width img) / of_nat img_size
       \<and> rescale_y img y = y * of_nat (height img) / of_nat img_size
       \<and> (width img = img_size \<longrightarrow> rescale_x img x = x \<and> rescale_y img y = y)"
proof -
  have p: "pad_x img = 0" "pad_y img = 0"
    using assms(1) by (rule pad_square)+
  have u: "unpad_w img = of_nat img_size" "unpad_h img = of_nat img_size"
    using pad_square(3,4) [OF assms(1)] by (simp_all add: img_size_def)
  have x: "rescale_x img x = x * of_nat (width img) / of_nat img_size"
    by (simp add: rescale_x_def u p floordiv_def)
  have y: "rescale_y img y = y * of_nat (height img) / of_nat img_size"
    by (simp add: rescale_y_def u p floordiv_def)
  have "width img = img_size \<longrightarrow> rescale_x img x = x \<and> rescale_y img y = y"
    using assms(1) by (simp add: x y img_size_def)
  with p x y show ?thesis by blast
qed

theorem square_image_rescale_witness:
  "pad_x \<lparr>width = 416, height = 416, bands = 3, pixels = ()\<rparr> = 0
   \<and> pad_y \<lparr>width = 416, height = 416, bands = 3, pixels = ()\<rparr> = 0
   \<and> rescale_x \<lparr>width = 416, height = 416, bands = 3, pixels = ()\<rparr> 100 = 100
   \<and> rescale_y \<lparr>width = 416, height = 416, bands = 3, pixels = ()\<rparr> 50 = 50"
  using square_image_rescale [of "\<lparr>width = 416, height = 416, bands = 3, pixels = ()\<rparr>" 100 50]
  by (simp add: img_size_def)

text \<open>On a square image of 832 by 832 pixels, x = 208 becomes 416.\<close>

theorem square_image_rescale_counterexample:
  "width \<lparr>width = 832, height = 832, bands = 3, pixels = ()\<rparr>
     = height \<lparr>width = 832, height = 832, bands = 3, pixels = ()\<rparr>
   \<and> pad_x \<lparr>width = 832, height = 832, bands = 3, pixels = ()\<rparr> = 0
   \<and> rescale_x \<lparr>width = 832, height = 832, bands = 3, pixels = ()\<rparr> 208 = 416
   \<and> rescale_x \<lparr>width = 832, height = 832, bands = 3, pixels = ()\<rparr> 208 \<noteq> 208"
  by (simp add: rescale_defs floor_rat_numeral_div)

text \<open>
  Claim C7, as amended. The notebook clips nothing. For an image of positive width and
  height, with the entries of its shape below \<open>2^31\<close>, a rectangle that show\_objects
  draws lies within the image on a side exactly when the detection it was drawn for lies
  on the inner side of the bound that show\_objects itself computes for that side:
  \<open>0 \<le> x\<close> exactly when \<open>pad_x // 2 \<le> x1\<close>, \<open>x + box_w \<le> width\<close> exactly when
  \<open>x2 \<le> pad_x // 2 + unpad_w\<close>, \<open>0 \<le> y\<close> exactly when \<open>pad_y // 2 \<le> y1\<close>, and
  \<open>y + box_h \<le> height\<close> exactly when \<open>y2 \<le> pad_y // 2 + unpad_h\<close>. (These four bounds
  are values of show\_objects; they need not be the sides of the rectangle that
  detect\_objects filled with the resized image.)
\<close>

theorem drawn_box_within_image_iff:
  assumes "0 < width img" and "0 < height img" and "max_list (shape img) < 2147483648"
    and "i < length (fst (show_objects cmap classes rnd img (Some ds)))"
  shows "i < length ds
       \<and> (0 \<le> rect_x (fst (show_objects cmap classes rnd img (Some ds)) ! i)
            \<longleftrightarrow> floordiv (pad_x img) 2 \<le> x1 (ds ! i))
       \<and> (rect_x (fst (show_objects cmap classes rnd img (Some ds)) ! i)
            + rect_w (fst (show_objects cmap classes rnd img (Some ds)) ! i) \<le> of_nat (width img)
            \<longleftrightarrow> x2 (ds ! i) \<le> floordiv (pad_x img) 2 + unpad_w img)
       \<and> (0 \<le> rect_y (fst (show_objects cmap classes rnd img (Some ds)) ! i)
            \<longleftrightarrow> floordiv (pad_y img) 2 \<le> y1 (ds ! i))
       \<and> (rect_y (fst (show_objects cmap classes rnd img (Some ds)) ! i)
            + rect_h (fst (show_objects cmap classes rnd img (Some ds)) ! i) \<le> of_nat (height img)
            \<longleftrightarrow> y2 (ds ! i) \<le> floordiv (pad_y img) 2 + unpad_h img)"
proof -
  from show_objects_drawn [OF assms(4)] obtain c n where i: "i < length ds"
    and b: "fst (show_objects cmap classes rnd img (Some ds)) ! i = bbox img (ds ! i) c n"
    by blast
  have uw: "0 < unpad_w img" and uh: "0 < unpad_h img"
    using assms by (simp_all add: unpad_w_pos unpad_h_pos)
  have w: "(0::rat) < of_nat (width img)" and h: "(0::rat) < of_nat (height img)"
    using assms by simp_all
  show ?thesis
    unfolding b bbox_def rescale_x_def rescale_y_def
    using i bbox_left_iff [OF uw w] bbox_right_iff [OF uw w]
      bbox_left_iff [OF uh h] bbox_right_iff [OF uh h]
    by simp
qed

theorem drawn_box_within_image_iff_witness:
  "0 \<le> rect_x (fst (show_objects id [''person''] Suc
       \<lparr>width = 416, height = 416, bands = 3, pixels = ()\<rparr>
       (Some [\<lparr>x1 = 10, y1 = 20, x2 = 110, y2 = 220, conf = 1, cls_conf = 1, cls_pred = 0\<rparr>])) ! 0)
   \<and> rect_y (fst (show_objects id [''person''] Suc
       \<lparr>width = 416, height = 416, bands = 3, pixels = ()\<rparr>
       (Some [\<lparr>x1 = 10, y1 = 20, x2 = 110, y2 = 220, conf = 1, cls_conf = 1, cls_pred = 0\<rparr>])) ! 0)
     + rect_h (fst (show_objects id [''person''] Suc
       \<lparr>width = 416, height = 416, bands = 3, pixels = ()\<rparr>
       (Some [\<lparr>x1 = 10, y1 = 20, x2 = 110, y2 = 220, conf = 1, cls_conf = 1, cls_pred = 0\<rparr>])) ! 0)
     \<le> 416"
proof -
  let ?I = "\<lparr>width = 416, height = 416, bands = 3, pixels = ()\<rparr>"
  let ?d = "\<lparr>x1 = 10, y1 = 20, x2 = 110, y2 = 220, conf = 1, cls_conf = 1, cls_pred = 0\<rparr>"
  let ?drawn = "fst (show_objects id [''person''] Suc ?I (Some [?d]))"
  have m: "max_list (shape ?I) \<noteq> 0" by (simp add: shape_def max_list_def)
  have u: "length (unique (map cls_pred [?d])) \<le> 20" by (simp add: unique_def)
  have c: "\<forall>d\<in>set [?d]. cls_pred d < length [''person'']" by simp
  from show_objects_ok [OF m u c, of Suc id]
  have "length ?drawn = length [?d]" by blast
  then have i: "0 < length ?drawn" by simp
  have pos: "0 < width ?I" "0 < height ?I" "max_list (shape ?I) < 2147483648"
    by (simp_all add: shape_def max_list_def)
  have "floordiv (pad_x ?I) 2 \<le> x1 ([?d] ! 0)"
    and "y2 ([?d] ! 0) \<le> floordiv (pad_y ?I) 2 + unpad_h ?I"
    by (simp_all add: rescale_defs)
  with drawn_box_within_image_iff [OF pos i] show ?thesis by simp
qed

text \<open>A detection that starts 8 network pixels left of the input, as the network returns
  for an object cut by the border, is drawn at x = -8.\<close>

theorem drawn_box_outside_image_counterexample:
  "rect_x (fst (show_objects id [''person''] Suc
       \<lparr>width = 416, height = 416, bands = 3, pixels = ()\<rparr>
       (Some [\<lparr>x1 = - 8, y1 = 20, x2 = 110, y2 = 220, conf = 1, cls_conf = 1, cls_pred = 0\<rparr>])) ! 0) < 0"
proof -
  let ?I = "\<lparr>width = 416, height = 416, bands = 3, pixels = ()\<rparr>"
  let ?d = "\<lparr>x1 = - 8, y1 = 20, x2 = 110, y2 = 220, conf = 1, cls_conf = 1, cls_pred = 0\<rparr>"
  let ?drawn = "fst (show_objects id [''person''] Suc ?I (Some [?d]))"
  have m: "max_list (shape ?I) \<noteq> 0" by (simp add: shape_def max_list_def)
  have u: "length (unique (map cls_pred [?d])) \<le> 20" by (simp add: unique_def)
  have c: "\<forall>d\<in>set [?d]. cls_pred d < length [''person'']" by simp
  from show_objects_ok [OF m u c, of Suc id]
  have "length ?drawn = length [?d]" by blast
  then have "0 < length ?drawn" by simp
  from show_objects_drawn [OF this] obtain col n where "?drawn ! 0 = bbox ?I ([?d] ! 0) col n"
    by blast
  then have "rect_x (?drawn ! 0) = rescale_x ?I (- 8)" by (simp add: bbox_def)
  also have "\<dots> = - 8" by (simp add: rescale_defs)
  finally show ?thesis by simp
qed

section \<open>The drawing of detections\<close>

text \<open>
  Claim C3, as amended. Let detect\_objects return a detection set for an image, with at
  most 20 different class labels, each of them an index into the list of class names. Then
  the iteration of the test-image loop prints the length of the set as the object count,
  show\_objects raises no error, and the number of rectangles it draws for the image is
  that same length.
\<close>

theorem printed_count_equals_drawn_boxes:
  assumes "detect_objects cuda_available forward non_max_suppression (nb_model nb) img
             = (m, Inr (Some ds))"
    and "length (unique (map cls_pred ds)) \<le> 20"
    and "\<forall>d\<in>set ds. cls_pred d < length classes"
  shows "test_image_loop cuda_available forward non_max_suppression cmap classes rnd
           [(image_file, img)] nb
         = (nb\<lparr>nb_model := m, console := console nb @ [Found (length ds) image_file],
               figures := figures nb
                 @ [fst (show_objects cmap classes (rnd (length (figures nb))) img (Some ds))]\<rparr>,
            None)
       \<and> length (fst (show_objects cmap classes (rnd (length (figures nb))) img (Some ds)))
           = length ds"
proof -
  let ?so = "show_objects cmap classes (rnd (length (figures nb))) img (Some ds)"
  from detect_objects_Inr_size [OF assms(1)] have "max_list (shape img) \<noteq> 0"
    by (simp add: max_shape_pos)
  from show_objects_ok [OF this assms(2,3), of "rnd (length (figures nb))" cmap]
  have ok: "snd ?so = None" and len: "length (fst ?so) = length ds"
    by blast+
  from ok obtain drawn where so: "?so = (drawn, None)"
    by (cases ?so) auto
  have "test_image_loop cuda_available forward non_max_suppression cmap classes rnd
           [(image_file, img)] nb
         = (nb\<lparr>nb_model := m, console := console nb @ [Found (length ds) image_file],
               figures := figures nb @ [drawn]\<rparr>, None)"
    using assms(1) by (simp add: Let_def so)
  with len show ?thesis by (simp add: so)
qed

theorem printed_count_equals_drawn_boxes_witness:
  "test_image_loop False (\<lambda>m t. (m, ()))
      (\<lambda>p conf_thres nms_thres.
         [Some [\<lparr>x1 = 10, y1 = 20, x2 = 110, y2 = 220, conf = 1, cls_conf = 1, cls_pred = 0\<rparr>]])
      id [''person''] (\<lambda>k. Suc)
      [(''a.jpg'', \<lparr>width = 416, height = 416, bands = 3, pixels = ()\<rparr>)]
      \<lparr>nb_model = \<lparr>weights = (), training = True, on_cuda = False\<rparr>, console = [], figures = []\<rparr>
    = (\<lparr>nb_model = \<lparr>weights = (), training = False, on_cuda = False\<rparr>,
        console = [Found 1 ''a.jpg''],
        figures = [fst (show_objects id [''person''] Suc
           \<lparr>width = 416, height = 416, bands = 3, pixels = ()\<rparr>
           (Some [\<lparr>x1 = 10, y1 = 20, x2 = 110, y2 = 220, conf = 1, cls_conf = 1, cls_pred = 0\<rparr>]))]\<rparr>,
       None)
   \<and> length (fst (show_objects id [''person''] Suc
           \<lparr>width = 416, height = 416, bands = 3, pixels = ()\<rparr>
           (Some [\<lparr>x1 = 10, y1 = 20, x2 = 110, y2 = 220, conf = 1, cls_conf = 1, cls_pred = 0\<rparr>])))
       = 1"
proof -
  let ?I = "\<lparr>width = 416, height = 416, bands = 3, pixels = ()\<rparr>"
  let ?d = "\<lparr>x1 = 10, y1 = 20, x2 = 110, y2 = 220, conf = 1, cls_conf = 1, cls_pred = 0\<rparr>"
  let ?nb = "\<lparr>nb_model = \<lparr>weights = (), training = True, on_cuda = False\<rparr>, console = [],
              figures = []\<rparr>"
  let ?nms = "\<lambda>(p::unit) (conf_thres::rat) (nms_thres::rat). [Some [?d]]"
  have det: "detect_objects False (\<lambda>m t. (m, ())) ?nms (nb_model ?nb) ?I
               = (\<lparr>weights = (), training = False, on_cuda = False\<rparr>, Inr (Some [?d]))"
    unfolding detect_objects_def letterbox_unfold by (simp add: letterbox_eval model_eval_def)
  have u: "length (unique (map cls_pred [?d])) \<le> 20" by (simp add: unique_def)
  have c: "\<forall>d\<in>set [?d]. cls_pred d < length [''person'']" by simp
  from printed_count_equals_drawn_boxes [OF det u c, of id "\<lambda>k. Suc" "''a.jpg''"]
  show ?thesis by simp
qed

text \<open>A set of 21 detections of 21 different classes: the count is 21, and show\_objects
  stops in \<^verbatim>\<open>random.sample\<close> before it has drawn a rectangle.\<close>

theorem printed_count_equals_drawn_boxes_counterexample:
  "length (fst (show_objects id (replicate 80 ''object'') Suc
       \<lparr>width = 416, height = 416, bands = 3, pixels = ()\<rparr>
       (Some (map (\<lambda>c. \<lparr>x1 = 10, y1 = 20, x2 = 110, y2 = 220, conf = 1, cls_conf = 1,
                          cls_pred = c\<rparr>) [0..<21]))))
   \<noteq> length (map (\<lambda>c. \<lparr>x1 = 10, y1 = 20, x2 = 110, y2 = 220, conf = 1, cls_conf = 1,
                          cls_pred = c\<rparr>) [0..<21])"
proof -
  let ?ds = "map (\<lambda>c. \<lparr>x1 = 10, y1 = 20, x2 = 110, y2 = 220, conf = 1, cls_conf = 1,
                          cls_pred = c\<rparr>) [0..<21]"
  have "map cls_pred ?ds = [0..<21]" by (simp add: comp_def)
  then have "length (unique (map cls_pred ?ds)) = 21"
    by (simp only: unique_distinct_length distinct_upt length_upt)
  then have "20 < length (unique (map cls_pred ?ds))" by simp
  then show ?thesis by (simp only: show_objects_too_many) simp
qed

text \<open>
  Claim C10. With more than 20 different class labels in the detection set, show\_objects
  ends with an error and without any rectangle (the ValueError of \<^verbatim>\<open>random.sample\<close>, or
  the ZeroDivisionError raised before it for an image whose shape has no positive entry).
  With at most 20, the sampling returns one colour per label, taken from the palette at
  positions that are different from each other (so the colours are different when those of
  the palette are), show\_objects does not end with the ValueError of the sampling, and for
  an image that is not empty and labels that index the list of class names it ends without
  any error, having drawn one rectangle per detection. The palette has exactly 20 colours.
\<close>

theorem show_objects_palette_limit:
  "(20 < length (unique (map cls_pred ds)) \<longrightarrow>
      show_objects cmap classes rnd img (Some ds)
        = ([], Some (if max_list (shape img) = 0 then ZeroDivisionError else ValueError)))
   \<and> (length (unique (map cls_pred ds)) \<le> 20 \<longrightarrow>
        (\<exists>bbox_colors positions.
           random_sample rnd (colors cmap) (length (unique (map cls_pred ds))) = Inr bbox_colors
           \<and> length bbox_colors = length (unique (map cls_pred ds))
           \<and> length positions = length (unique (map cls_pred ds))
           \<and> distinct positions \<and> (\<forall>i\<in>set positions. i < 20)
           \<and> bbox_colors = map (\<lambda>i. colors cmap ! i) positions
           \<and> (distinct (colors cmap) \<longrightarrow> distinct bbox_colors))
        \<and> snd (show_objects cmap classes rnd img (Some ds)) \<noteq> Some ValueError
        \<and> (max_list (shape img) \<noteq> 0 \<and> (\<forall>d\<in>set ds. cls_pred d < length classes) \<longrightarrow>
             snd (show_objects cmap classes rnd img (Some ds)) = None
             \<and> length (fst (show_objects cmap classes rnd img (Some ds))) = length ds))
   \<and> length (colors cmap) = 20"
proof (intro conjI impI)
  assume "20 < length (unique (map cls_pred ds))"
  then show "show_objects cmap classes rnd img (Some ds)
        = ([], Some (if max_list (shape img) = 0 then ZeroDivisionError else ValueError))"
    by (rule show_objects_too_many)
next
  assume le: "length (unique (map cls_pred ds)) \<le> 20"
  let ?n = "length (unique (map cls_pred ds))"
  from le have "?n \<le> length (colors cmap)" by (simp add: length_colors)
  then obtain bc rest where bc: "random_sample rnd (colors cmap) ?n = Inr bc"
    and len: "length bc = ?n"
    by (rule random_sample_ok)
  from random_sample_positions [OF bc] obtain positions where p: "length positions = ?n"
    "distinct positions" "\<forall>i\<in>set positions. i < length (colors cmap)"
    "bc = map (\<lambda>i. colors cmap ! i) positions"
    by blast
  from p(3) have p3: "\<forall>i\<in>set positions. i < 20" by (simp add: length_colors)
  have d: "distinct (colors cmap) \<longrightarrow> distinct bc"
    using random_sample_distinct [OF bc] by simp
  from bc len p(1,2,4) p3 d
  show "\<exists>bbox_colors positions.
           random_sample rnd (colors cmap) ?n = Inr bbox_colors
           \<and> length bbox_colors = ?n
           \<and> length positions = ?n
           \<and> distinct positions \<and> (\<forall>i\<in>set positions. i < 20)
           \<and> bbox_colors = map (\<lambda>i. colors cmap ! i) positions
           \<and> (distinct (colors cmap) \<longrightarrow> distinct bbox_colors)"
    by blast
next
  assume "length (unique (map cls_pred ds)) \<le> 20"
  then show "snd (show_objects cmap classes rnd img (Some ds)) \<noteq> Some ValueError"
    by (rule show_objects_no_ValueError)
next
  assume le: "length (unique (map cls_pred ds)) \<le> 20"
    and ok: "max_list (shape img) \<noteq> 0 \<and> (\<forall>d\<in>set ds. cls_pred d < length classes)"
  from ok have m: "max_list (shape img) \<noteq> 0" and c: "\<forall>d\<in>set ds. cls_pred d < length classes"
    by simp_all
  from show_objects_ok [OF m le c, of rnd cmap]
  show "snd (show_objects cmap classes rnd img (Some ds)) = None" by blast
next
  assume le: "length (unique (map cls_pred ds)) \<le> 20"
    and ok: "max_list (shape img) \<noteq> 0 \<and> (\<forall>d\<in>set ds. cls_pred d < length classes)"
  from ok have m: "max_list (shape img) \<noteq> 0" and c: "\<forall>d\<in>set ds. cls_pred d < length classes"
    by simp_all
  from show_objects_ok [OF m le c, of rnd cmap]
  show "length (fst (show_objects cmap classes rnd img (Some ds))) = length ds" by blast
next
  show "length (colors cmap) = 20" by (rule length_colors)
qed

theorem show_objects_palette_limit_witness:
  "show_objects id (replicate 80 ''object'') Suc
       \<lparr>width = 416, height = 416, bands = 3, pixels = ()\<rparr>
       (Some (map (\<lambda>c. \<lparr>x1 = 10, y1 = 20, x2 = 110, y2 = 220, conf = 1, cls_conf = 1,
                          cls_pred = c\<rparr>) [0..<21]))
     = ([], Some ValueError)
   \<and> (\<exists>bbox_colors. random_sample Suc (colors id) 2 = Inr bbox_colors
         \<and> length bbox_colors = 2 \<and> distinct bbox_colors)
   \<and> snd (show_objects id (replicate 80 ''object'') Suc
       \<lparr>width = 416, height = 416, bands = 3, pixels = ()\<rparr>
       (Some (map (\<lambda>c. \<lparr>x1 = 10, y1 = 20, x2 = 110, y2 = 220, conf = 1, cls_conf = 1,
                          cls_pred = c\<rparr>) [7, 3, 7]))) = None
   \<and> length (fst (show_objects id (replicate 80 ''object'') Suc
       \<lparr>width = 416, height = 416, bands = 3, pixels = ()\<rparr>
       (Some (map (\<lambda>c. \<lparr>x1 = 10, y1 = 20, x2 = 110, y2 = 220, conf = 1, cls_conf = 1,
                          cls_pred = c\<rparr>) [7, 3, 7])))) = 3"
proof -
  let ?I = "\<lparr>width = 416, height = 416, bands = 3, pixels = ()\<rparr>"
  let ?d = "\<lambda>c. \<lparr>x1 = 10, y1 = 20, x2 = 110, y2 = 220, conf = 1, cls_conf = 1, cls_pred = c\<rparr>"
  have "map cls_pred (map ?d [0..<21]) = [0..<21]" by (simp add: comp_def)
  then have "length (unique (map cls_pred (map ?d [0..<21]))) = 21"
    by (simp only: unique_distinct_length distinct_upt length_upt)
  then have many: "20 < length (unique (map cls_pred (map ?d [0..<21])))" by simp
  have m: "max_list (shape ?I) \<noteq> 0" by (simp add: shape_def max_list_def)
  have two: "length (unique (map cls_pred (map ?d [7, 3, 7]))) = 2"
    by (simp add: unique_def)
  have c: "\<forall>d\<in>set (map ?d [7, 3, 7]). cls_pred d < length (replicate 80 ''object'')"
    by simp
  from show_objects_palette_limit [of "map ?d [0..<21]" id "replicate 80 ''object''" Suc ?I] many m
  have 1: "show_objects id (replicate 80 ''object'') Suc ?I (Some (map ?d [0..<21]))
            = ([], Some ValueError)" by simp
  from show_objects_palette_limit [of "map ?d [7, 3, 7]" id "replicate 80 ''object''" Suc ?I]
    two m c distinct_colors_id
  have 2: "(\<exists>bbox_colors. random_sample Suc (colors id) 2 = Inr bbox_colors
         \<and> length bbox_colors = 2 \<and> distinct bbox_colors)"
    and 3: "snd (show_objects id (replicate 80 ''object'') Suc ?I (Some (map ?d [7, 3, 7]))) = None"
    and 4: "length (fst (show_objects id (replicate 80 ''object'') Suc ?I
               (Some (map ?d [7, 3, 7])))) = 3"
    by auto
  from 1 2 3 4 show ?thesis by blast
qed

text \<open>
  Claim C6. Let the 20 colours of the palette be different from each other, the detection
  set have at most as many different class labels as the palette has colours, and every
  label be an index into the list of class names. Then show\_objects draws one rectangle per
  detection, two detections get the same edge colour if and only if they have the same
  predicted class, and the colour of a detection is the sampled colour at the position of
  its class among the labels of this image (\<open>bbox_colors ! k\<close> where
  \<open>unique_labels ! k\<close> is the class), not at the class index.
\<close>

theorem box_colors_by_class:
  assumes "distinct (colors cmap)"
    and "length (unique (map cls_pred ds)) \<le> length (colors cmap)"
    and "\<forall>d\<in>set ds. cls_pred d < length classes"
    and "max_list (shape img) \<noteq> 0"
  shows "\<exists>bbox_colors.
           random_sample rnd (colors cmap) (length (unique (map cls_pred ds))) = Inr bbox_colors
         \<and> snd (show_objects cmap classes rnd img (Some ds)) = None
         \<and> length (fst (show_objects cmap classes rnd img (Some ds))) = length ds
         \<and> (\<forall>i<length ds. \<forall>j<length ds.
              edgecolor (fst (show_objects cmap classes rnd img (Some ds)) ! i)
                = edgecolor (fst (show_objects cmap classes rnd img (Some ds)) ! j)
              \<longleftrightarrow> cls_pred (ds ! i) = cls_pred (ds ! j))
         \<and> (\<forall>i<length ds. \<exists>k<length (unique (map cls_pred ds)).
              unique (map cls_pred ds) ! k = cls_pred (ds ! i)
              \<and> edgecolor (fst (show_objects cmap classes rnd img (Some ds)) ! i)
                  = bbox_colors ! k)"
proof -
  let ?ul = "unique (map cls_pred ds)"
  let ?drawn = "fst (show_objects cmap classes rnd img (Some ds))"
  from assms(2) have le: "length ?ul \<le> 20" by (simp add: length_colors)
  from show_objects_ok [OF assms(4) le assms(3), of rnd cmap]
  obtain bc where bc: "random_sample rnd (colors cmap) (length ?ul) = Inr bc"
    and len: "length bc = length ?ul"
    and ok: "snd (show_objects cmap classes rnd img (Some ds)) = None"
    and l: "length ?drawn = length ds"
    and nth: "\<forall>i<length ds. \<exists>k. label_index ?ul (cls_pred (ds ! i)) = Inr k \<and> k < length bc
                \<and> ?drawn ! i = bbox img (ds ! i) (bc ! k) (classes ! cls_pred (ds ! i))"
    by blast
  from random_sample_distinct [OF bc assms(1)] have dbc: "distinct bc" by simp
  have col: "\<exists>k<length ?ul. ?ul ! k = cls_pred (ds ! i) \<and> edgecolor (?drawn ! i) = bc ! k"
    if "i < length ds" for i
  proof -
    from nth that obtain k where k: "label_index ?ul (cls_pred (ds ! i)) = Inr k"
      and d: "?drawn ! i = bbox img (ds ! i) (bc ! k) (classes ! cls_pred (ds ! i))"
      by blast
    from label_index_Inr [OF k] d show ?thesis by (auto simp add: bbox_def)
  qed
  have same: "edgecolor (?drawn ! i) = edgecolor (?drawn ! j)
                \<longleftrightarrow> cls_pred (ds ! i) = cls_pred (ds ! j)"
    if "i < length ds" and "j < length ds" for i j
  proof -
    from col [OF that(1)] obtain k where k: "k < length ?ul" "?ul ! k = cls_pred (ds ! i)"
      "edgecolor (?drawn ! i) = bc ! k" by blast
    from col [OF that(2)] obtain k' where k': "k' < length ?ul" "?ul ! k' = cls_pred (ds ! j)"
      "edgecolor (?drawn ! j) = bc ! k'" by blast
    have "bc ! k = bc ! k' \<longleftrightarrow> k = k'"
      using dbc k(1) k'(1) len by (simp add: nth_eq_iff_index_eq)
    also have "\<dots> \<longleftrightarrow> ?ul ! k = ?ul ! k'"
      using unique_props(1) [of "map cls_pred ds"] k(1) k'(1) by (simp add: nth_eq_iff_index_eq)
    finally show ?thesis by (simp add: k k')
  qed
  from bc ok l same col show ?thesis by blast
qed

theorem box_colors_by_class_witness:
  "edgecolor (fst (show_objects id [''person'', ''dog''] Suc
       \<lparr>width = 416, height = 416, bands = 3, pixels = ()\<rparr>
       (Some [\<lparr>x1 = 10, y1 = 20, x2 = 110, y2 = 220, conf = 1, cls_conf = 1, cls_pred = 1\<rparr>,
              \<lparr>x1 = 30, y1 = 40, x2 = 50, y2 = 60, conf = 1, cls_conf = 1, cls_pred = 0\<rparr>,
              \<lparr>x1 = 70, y1 = 80, x2 = 90, y2 = 95, conf = 1, cls_conf = 1, cls_pred = 1\<rparr>])) ! 0)
   \<noteq> edgecolor (fst (show_objects id [''person'', ''dog''] Suc
       \<lparr>width = 416, height = 416, bands = 3, pixels = ()\<rparr>
       (Some [\<lparr>x1 = 10, y1 = 20, x2 = 110, y2 = 220, conf = 1, cls_conf = 1, cls_pred = 1\<rparr>,
              \<lparr>x1 = 30, y1 = 40, x2 = 50, y2 = 60, conf = 1, cls_conf = 1, cls_pred = 0\<rparr>,
              \<lparr>x1 = 70, y1 = 80, x2 = 90, y2 = 95, conf = 1, cls_conf = 1, cls_pred = 1\<rparr>])) ! 1)
   \<and> edgecolor (fst (show_objects id [''person'', ''dog''] Suc
       \<lparr>width = 416, height = 416, bands = 3, pixels = ()\<rparr>
       (Some [\<lparr>x1 = 10, y1 = 20, x2 = 110, y2 = 220, conf = 1, cls_conf = 1, cls_pred = 1\<rparr>,
              \<lparr>x1 = 30, y1 = 40, x2 = 50, y2 = 60, conf = 1, cls_conf = 1, cls_pred = 0\<rparr>,
              \<lparr>x1 = 70, y1 = 80, x2 = 90, y2 = 95, conf = 1, cls_conf = 1, cls_pred = 1\<rparr>])) ! 0)
   = edgecolor (fst (show_objects id [''person'', ''dog''] Suc
       \<lparr>width = 416, height = 416, bands = 3, pixels = ()\<rparr>
       (Some [\<lparr>x1 = 10, y1 = 20, x2 = 110, y2 = 220, conf = 1, cls_conf = 1, cls_pred = 1\<rparr>,
              \<lparr>x1 = 30, y1 = 40, x2 = 50, y2 = 60, conf = 1, cls_conf = 1, cls_pred = 0\<rparr>,
              \<lparr>x1 = 70, y1 = 80, x2 = 90, y2 = 95, conf = 1, cls_conf = 1, cls_pred = 1\<rparr>])) ! 2)"
proof -
  let ?I = "\<lparr>width = 416, height = 416, bands = 3, pixels = ()\<rparr>"
  let ?ds = "[\<lparr>x1 = 10, y1 = 20, x2 = 110, y2 = 220, conf = 1, cls_conf = 1, cls_pred = 1\<rparr>,
              \<lparr>x1 = 30, y1 = 40, x2 = 50, y2 = 60, conf = 1, cls_conf = 1, cls_pred = 0\<rparr>,
              \<lparr>x1 = 70, y1 = 80, x2 = 90, y2 = 95, conf = 1, cls_conf = 1, cls_pred = 1\<rparr>]"
  have m: "max_list (shape ?I) \<noteq> 0" by (simp add: shape_def max_list_def)
  have u: "length (unique (map cls_pred ?ds)) \<le> length (colors (id :: rat \<Rightarrow> rat))"
    by (simp add: unique_def length_colors)
  have c: "\<forall>d\<in>set ?ds. cls_pred d < length [''person'', ''dog'']" by simp
  from box_colors_by_class [OF distinct_colors_id u c m, of Suc]
  have same: "\<forall>i<length ?ds. \<forall>j<length ?ds.
              edgecolor (fst (show_objects id [''person'', ''dog''] Suc ?I (Some ?ds)) ! i)
                = edgecolor (fst (show_objects id [''person'', ''dog''] Suc ?I (Some ?ds)) ! j)
              \<longleftrightarrow> cls_pred (?ds ! i) = cls_pred (?ds ! j)"
    by blast
  from same [rule_format, of 0 1] same [rule_format, of 0 2] show ?thesis by simp
qed

section \<open>The model object across calls of detect\_objects\<close>

text \<open>
  Claim C4. Let the forward pass of the library be read-only in evaluation mode, as the
  spec has it. Then a second call of detect\_objects, on the model object that the
  first call left behind and on the same image, returns what the first call returned (the
  same detections, or the same error) and leaves the same model object.
\<close>

theorem detect_objects_twice:
  assumes "read_only forward"
  shows "snd (detect_objects ca forward nms (fst (detect_objects ca forward nms model img)) img)
           = snd (detect_objects ca forward nms model img)
       \<and> fst (detect_objects ca forward nms (fst (detect_objects ca forward nms model img)) img)
           = fst (detect_objects ca forward nms model img)"
  by (simp add: detect_objects_model_after [OF assms] detect_objects_prepared)

theorem detect_objects_twice_witness:
  "snd (detect_objects True (\<lambda>m t. (m, t_width t))
          (\<lambda>p conf_thres nms_thres.
             [Some [\<lparr>x1 = 0, y1 = 0, x2 = of_int p, y2 = 1, conf = 1, cls_conf = 1, cls_pred = 0\<rparr>]])
          (fst (detect_objects True (\<lambda>m t. (m, t_width t))
             (\<lambda>p conf_thres nms_thres.
                [Some [\<lparr>x1 = 0, y1 = 0, x2 = of_int p, y2 = 1, conf = 1, cls_conf = 1, cls_pred = 0\<rparr>]])
             \<lparr>weights = (), training = True, on_cuda = False\<rparr>
             \<lparr>width = 500, height = 375, bands = 3, pixels = ()\<rparr>))
          \<lparr>width = 500, height = 375, bands = 3, pixels = ()\<rparr>)
   = snd (detect_objects True (\<lambda>m t. (m, t_width t))
          (\<lambda>p conf_thres nms_thres.
             [Some [\<lparr>x1 = 0, y1 = 0, x2 = of_int p, y2 = 1, conf = 1, cls_conf = 1, cls_pred = 0\<rparr>]])
          \<lparr>weights = (), training = True, on_cuda = False\<rparr>
          \<lparr>width = 500, height = 375, bands = 3, pixels = ()\<rparr>)"
proof -
  have ro: "read_only (\<lambda>(m :: unit model) (t :: unit tensor). (m, t_width t))"
    by (simp add: read_only_def)
  from detect_objects_twice [OF ro] show ?thesis by blast
qed

text \<open>
  Claim C8, as amended. With a forward pass that is read-only in evaluation mode,
  detect\_objects leaves the weights as they were, clears the training flag and puts the
  model on the GPU when one is available; a model that is already in evaluation mode, and
  on the GPU if there is one, is left unchanged. So the model object is the same before and
  after every iteration of the loop but the first.
\<close>

theorem detect_objects_model_state:
  assumes "read_only forward"
  shows "weights (fst (detect_objects ca forward nms model img)) = weights model
       \<and> training (fst (detect_objects ca forward nms model img)) = False
       \<and> on_cuda (fst (detect_objects ca forward nms model img)) = (ca \<or> on_cuda model)
       \<and> (\<not> training model \<and> (ca \<longrightarrow> on_cuda model)
            \<longrightarrow> fst (detect_objects ca forward nms model img) = model)"
  by (simp add: detect_objects_model_after [OF assms] model_eval_def model_cuda_def)

theorem detect_objects_model_state_witness:
  "fst (detect_objects True (\<lambda>m t. (m, t_width t)) (\<lambda>p conf_thres nms_thres. [None])
          \<lparr>weights = (), training = False, on_cuda = True\<rparr>
          \<lparr>width = 500, height = 375, bands = 3, pixels = ()\<rparr>)
     = \<lparr>weights = (), training = False, on_cuda = True\<rparr>
   \<and> training (fst (detect_objects True (\<lambda>m t. (m, t_width t)) (\<lambda>p conf_thres nms_thres. [None])
          \<lparr>weights = (), training = True, on_cuda = False\<rparr>
          \<lparr>width = 500, height = 375, bands = 3, pixels = ()\<rparr>)) = False"
proof -
  have ro: "read_only (\<lambda>(m :: unit model) (t :: unit tensor). (m, t_width t))"
    by (simp add: read_only_def)
  from detect_objects_model_state [OF ro,
      of True "\<lambda>p conf_thres nms_thres. [None]" "\<lparr>weights = (), training = False, on_cuda = True\<rparr>"
         "\<lparr>width = 500, height = 375, bands = 3, pixels = ()\<rparr>"]
    detect_objects_model_state [OF ro,
      of True "\<lambda>p conf_thres nms_thres. [None]" "\<lparr>weights = (), training = True, on_cuda = False\<rparr>"
         "\<lparr>width = 500, height = 375, bands = 3, pixels = ()\<rparr>"]
  show ?thesis by simp
qed

text \<open>A model as constructed is in training mode: the first call changes its flag, even
  without a GPU.\<close>

theorem detect_objects_model_state_counterexample:
  "fst (detect_objects False (\<lambda>m t. (m, t_width t)) (\<lambda>p conf_thres nms_thres. [None])
          \<lparr>weights = (), training = True, on_cuda = False\<rparr>
          \<lparr>width = 500, height = 375, bands = 3, pixels = ()\<rparr>)
     \<noteq> \<lparr>weights = (), training = True, on_cuda = False\<rparr>"
  unfolding detect_objects_def letterbox_unfold by (simp add: letterbox_eval model_eval_def)

section \<open>The size of the network input\<close>

text \<open>
  Claim C5, at a 500 by 333 image. The image is resized to 416 by 277; the difference of
  139 is odd, both \<^verbatim>\<open>Pad\<close> amounts are \<^verbatim>\<open>int(69.5) = 69\<close>, and the network input is 416
  wide and 415 high, not 416 by 416. (Lemma \<open>img_transforms_size\<close> has the general case.)
\<close>

theorem img_transforms_500x333:
  "img_transforms \<lparr>width = 500, height = 333, bands = 3, pixels = ()\<rparr>
     = Inr \<lparr>t_width = 416, t_height = 415, content_left = 0, content_top = 69,
            content_width = 416, content_height = 277, fill = (128, 128, 128),
            source = \<lparr>width = 500, height = 333, bands = 3, pixels = ()\<rparr>\<rparr>"
  unfolding letterbox_unfold by (simp add: letterbox_eval)

section \<open>The loop on an image without detections\<close>

text \<open>
  Claim C9, at a directory of two images for which the suppression returns \<^verbatim>\<open>None\<close>.
  \<^verbatim>\<open>len(detections)\<close> raises TypeError in the first iteration: no line is printed, no
  figure is shown, and the second image is not reached.
\<close>

theorem test_image_loop_none:
  "test_image_loop False (\<lambda>m t. (m, t_width t)) (\<lambda>p conf_thres nms_thres. [None])
      id [''person''] (\<lambda>k. Suc)
      [(''a.jpg'', \<lparr>width = 500, height = 375, bands = 3, pixels = ()\<rparr>),
       (''b.jpg'', \<lparr>width = 500, height = 375, bands = 3, pixels = ()\<rparr>)]
      \<lparr>nb_model = \<lparr>weights = (), training = True, on_cuda = False\<rparr>, console = [], figures = []\<rparr>
    = (\<lparr>nb_model = \<lparr>weights = (), training = False, on_cuda = False\<rparr>, console = [],
        figures = []\<rparr>, Some TypeError)"
proof -
  have "detect_objects False (\<lambda>m t. (m, t_width t)) (\<lambda>p conf_thres nms_thres. [None])
          \<lparr>weights = (), training = True, on_cuda = False\<rparr>
          \<lparr>width = 500, height = 375, bands = 3, pixels = ()\<rparr>
        = (\<lparr>weights = (), training = False, on_cuda = False\<rparr>, Inr None)"
    unfolding detect_objects_def letterbox_unfold by (simp add: letterbox_eval model_eval_def)
  then show ?thesis by simp
qed

end
